theory Spec2Isabelle
  imports Main "HOL-Library.Word" "HOL-Library.Char_ord" "HOL-Library.List_Lexorder"
begin

section \<open>Errors\<close>

text \<open>
  The exceptions of the program, as values. \<open>LexerError\<close> and \<open>ParsingError\<close> are the two
  classes of lexer.h, both derived directly from \<open>std::runtime_error\<close> and unrelated to each
  other; \<open>RuntimeError\<close> is a plain \<open>std::runtime_error\<close>; \<open>StdOutOfRange\<close> and
  \<open>StdInvalidArgument\<close> are what \<open>std::stoi\<close> throws; \<open>AssertionFailure\<close> is a failed \<open>assert\<close>. Each carries the
  message of the source.
\<close>

datatype error =
    LexerError string
  | ParsingError string
  | RuntimeError string
  | StdOutOfRange
  | StdInvalidArgument
  | AssertionFailure

section \<open>Runtime: the value model (runtime.h)\<close>

text \<open>
  A method body is an \<open>Executable\<close>, an interface whose implementations are not part of
  runtime.cpp; bodies are values of a type parameter \<open>'b\<close> and their \<open>Execute\<close> is a
  parameter of every function that runs one.
\<close>

datatype 'b Method = Method (name: string) (formal_params: "string list") (body: 'b)

text \<open>
  A class: \<open>name_\<close>, \<open>methods_\<close> in declaration order and \<open>parent_\<close> (\<open>None\<close> is the
  null pointer of a base class). Classes are immutable once constructed, so the parent is held by
  value.
\<close>

datatype 'b Class = Class (class_name: string) (class_methods: "'b Method list") (class_parent: "'b Class option")

text \<open>
  The constructor's loop \<open>metod_name_to_ptr_[method.name] = &method\<close>: a later method of
  the same name replaces an earlier one.
\<close>

definition metod_name_to_ptr :: "'b Class \<Rightarrow> (string \<rightharpoonup> 'b Method)" where
  "metod_name_to_ptr cls =
     fold (\<lambda>method tbl. tbl(name method \<mapsto> method)) (class_methods cls) Map.empty"

text \<open>
  Objects. \<open>Number\<close> is \<open>ValueObject<int>\<close>, a 32-bit signed integer. A \<open>ClassInstance\<close> is
  identified by its address (\<open>this\<close>) and carries the constant reference \<open>class_\<close> fixed at
  construction; its mutable \<open>fields_\<close> live in the heap under that address. An
  \<open>ObjectHolder\<close> is a possibly null pointer to an object: \<open>None\<close> is the empty holder.
\<close>

type_synonym addr = nat

datatype 'b ClassInstance = ClassInstance (address: addr) (instance_class: "'b Class")

datatype 'b Object =
    ObjNumber "32 word"
  | ObjString string
  | ObjBool bool
  | ObjClass "'b Class"
  | ObjClassInstance "'b ClassInstance"

type_synonym 'b ObjectHolder = "'b Object option"

type_synonym 'b Closure = "string \<rightharpoonup> 'b ObjectHolder"

type_synonym 'b heap = "addr \<rightharpoonup> 'b Closure"

text \<open>
  Output streams are identified by a number; a write is an event (stream, bytes). A
  \<open>Context\<close> gives access to one output stream.
\<close>

type_synonym ostream = nat

type_synonym event = "ostream \<times> string"

datatype Context = Context (GetOutputStream: ostream)

text \<open>
  \<open>Executable::Execute(closure, context)\<close>: runs a body against a closure, a context and
  the heap; it throws, or returns a holder, the new heap and what it wrote.
\<close>

type_synonym 'b Execute =
  "'b \<Rightarrow> 'b Closure \<Rightarrow> Context \<Rightarrow> 'b heap \<Rightarrow> error + ('b ObjectHolder \<times> 'b heap \<times> event list)"

definition LESS_THAN_METHOD :: string where "LESS_THAN_METHOD = ''__lt__''"
definition EQUAL_METHOD :: string where "EQUAL_METHOD = ''__eq__''"

subsection \<open>IsTrue\<close>

text \<open>
  The three \<open>dynamic_cast\<close> tests in the order of the source: \<open>Bool\<close>, \<open>Number\<close> (an
  \<open>int\<close> converted to \<open>bool\<close>), \<open>String\<close>; anything else, the null pointer included, is
  false.
\<close>

fun IsTrue :: "'b ObjectHolder \<Rightarrow> bool" where
  "IsTrue (Some (ObjBool b)) = b"
| "IsTrue (Some (ObjNumber n)) = (n \<noteq> 0)"
| "IsTrue (Some (ObjString s)) = (s \<noteq> [])"
| "IsTrue _ = False"


subsection \<open>Classes and instances (runtime.cpp)\<close>

text \<open>
  \<open>Class::GetMethod\<close>: the class's own index first, then the parent's \<open>GetMethod\<close>, and
  the null pointer (\<open>None\<close>) where there is no parent.
\<close>

fun GetMethod :: "'b Class \<Rightarrow> string \<Rightarrow> 'b Method option" where
  "GetMethod (Class nm ms par) method_name =
     (case metod_name_to_ptr (Class nm ms par) method_name of
        Some method \<Rightarrow> Some method
      | None \<Rightarrow> (case par of Some p \<Rightarrow> GetMethod p method_name | None \<Rightarrow> None))"

definition HasMethod :: "'b ClassInstance \<Rightarrow> string \<Rightarrow> nat \<Rightarrow> bool" where
  "HasMethod this method_name argument_count =
     (case GetMethod (instance_class this) method_name of
        None \<Rightarrow> False
      | Some method \<Rightarrow> length (formal_params method) = argument_count)"

text \<open>\<open>ObjectHolder::Share(*this)\<close>: a holder that points to the instance without owning it.\<close>

definition Share :: "'b ClassInstance \<Rightarrow> 'b ObjectHolder" where
  "Share this = Some (ObjClassInstance this)"

text \<open>
  The closure that \<open>ClassInstance::Call\<close> builds: \<open>args["self"]\<close> first, then
  \<open>args[formal_params[i]] = actual_args[i]\<close> for \<open>i\<close> from 0.
\<close>

definition call_closure :: "'b ClassInstance \<Rightarrow> string list \<Rightarrow> 'b ObjectHolder list \<Rightarrow> 'b Closure" where
  "call_closure this params actual_args =
     fold (\<lambda>i args. args(params ! i \<mapsto> actual_args ! i)) [0..<length params]
       (Map.empty(''self'' \<mapsto> Share this))"

text \<open>
  \<open>ClassInstance::Call\<close>. After the \<open>HasMethod\<close> test the method pointer is not null and
  there are as many actual arguments as formal parameters; the \<open>None\<close> branch below is
  the dereference of a null method pointer, which that test excludes.
\<close>

definition Call ::
  "'b Execute \<Rightarrow> 'b ClassInstance \<Rightarrow> string \<Rightarrow> 'b ObjectHolder list \<Rightarrow> Context \<Rightarrow> 'b heap
     \<Rightarrow> error + ('b ObjectHolder \<times> 'b heap \<times> event list)" where
  "Call exec this method_name actual_args context h =
     (if \<not> HasMethod this method_name (length actual_args)
      then Inl (RuntimeError ''Cannot call method'')
      else case GetMethod (instance_class this) method_name of
             None \<Rightarrow> Inl AssertionFailure
           | Some method \<Rightarrow>
               exec (body method) (call_closure this (formal_params method) actual_args) context h)"

subsection \<open>Print\<close>






subsection \<open>Comparisons\<close>

text \<open>
  \<open>Equal\<close>, in the order of the source: both holders empty; a class instance on the left;
  then the \<open>COMPARABLE_VALUE\<close> tests for \<open>Bool\<close>, \<open>Number\<close> and \<open>String\<close>; then the
  final \<open>throw\<close>.
\<close>

fun Equal ::
  "'b Execute \<Rightarrow> 'b ObjectHolder \<Rightarrow> 'b ObjectHolder \<Rightarrow> Context \<Rightarrow> 'b heap
     \<Rightarrow> error + (bool \<times> 'b heap \<times> event list)" where
  "Equal exec None None context h = Inr (True, h, [])"
| "Equal exec (Some (ObjClassInstance this)) rhs context h =
     (if HasMethod this EQUAL_METHOD 1
      then (case Call exec this EQUAL_METHOD [rhs] context h of
              Inl e \<Rightarrow> Inl e
            | Inr (r, h', ev) \<Rightarrow> Inr (IsTrue r, h', ev))
      else Inl (RuntimeError ''Cannot compare objects for equality''))"
| "Equal exec (Some (ObjBool a)) (Some (ObjBool b)) context h = Inr (a = b, h, [])"
| "Equal exec (Some (ObjNumber a)) (Some (ObjNumber b)) context h = Inr (a = b, h, [])"
| "Equal exec (Some (ObjString a)) (Some (ObjString b)) context h = Inr (a = b, h, [])"
| "Equal exec _ _ context h = Inl (RuntimeError ''Cannot compare objects for equality'')"

text \<open>
  \<open>Less\<close>: \<open><\<close> on \<open>bool\<close> (false before true), on \<open>int\<close> (signed) and on
  \<open>std::string\<close> (lexicographic on the bytes).
\<close>

fun Less ::
  "'b Execute \<Rightarrow> 'b ObjectHolder \<Rightarrow> 'b ObjectHolder \<Rightarrow> Context \<Rightarrow> 'b heap
     \<Rightarrow> error + (bool \<times> 'b heap \<times> event list)" where
  "Less exec (Some (ObjClassInstance this)) rhs context h =
     (if HasMethod this LESS_THAN_METHOD 1
      then (case Call exec this LESS_THAN_METHOD [rhs] context h of
              Inl e \<Rightarrow> Inl e
            | Inr (r, h', ev) \<Rightarrow> Inr (IsTrue r, h', ev))
      else Inl (RuntimeError ''Cannot compare objects for less''))"
| "Less exec (Some (ObjBool a)) (Some (ObjBool b)) context h = Inr (a < b, h, [])"
| "Less exec (Some (ObjNumber a)) (Some (ObjNumber b)) context h = Inr (sint a < sint b, h, [])"
| "Less exec (Some (ObjString a)) (Some (ObjString b)) context h = Inr (a < b, h, [])"
| "Less exec _ _ context h = Inl (RuntimeError ''Cannot compare objects for less'')"

definition NotEqual ::
  "'b Execute \<Rightarrow> 'b ObjectHolder \<Rightarrow> 'b ObjectHolder \<Rightarrow> Context \<Rightarrow> 'b heap
     \<Rightarrow> error + (bool \<times> 'b heap \<times> event list)" where
  "NotEqual exec lhs rhs context h =
     (case Equal exec lhs rhs context h of
        Inl e \<Rightarrow> Inl e
      | Inr (eq, h', ev) \<Rightarrow> Inr (\<not> eq, h', ev))"

text \<open>
  \<open>!(Less(...) || Equal(...))\<close>: \<open>||\<close> evaluates \<open>Equal\<close> only when \<open>Less\<close> returned
  false, and in the state that \<open>Less\<close> left.
\<close>

definition Greater ::
  "'b Execute \<Rightarrow> 'b ObjectHolder \<Rightarrow> 'b ObjectHolder \<Rightarrow> Context \<Rightarrow> 'b heap
     \<Rightarrow> error + (bool \<times> 'b heap \<times> event list)" where
  "Greater exec lhs rhs context h =
     (case Less exec lhs rhs context h of
        Inl e \<Rightarrow> Inl e
      | Inr (lt, h1, ev1) \<Rightarrow>
          if lt then Inr (\<not> True, h1, ev1)
          else (case Equal exec lhs rhs context h1 of
                  Inl e \<Rightarrow> Inl e
                | Inr (eq, h2, ev2) \<Rightarrow> Inr (\<not> eq, h2, ev1 @ ev2)))"

definition LessOrEqual ::
  "'b Execute \<Rightarrow> 'b ObjectHolder \<Rightarrow> 'b ObjectHolder \<Rightarrow> Context \<Rightarrow> 'b heap
     \<Rightarrow> error + (bool \<times> 'b heap \<times> event list)" where
  "LessOrEqual exec lhs rhs context h =
     (case Greater exec lhs rhs context h of
        Inl e \<Rightarrow> Inl e
      | Inr (gt, h', ev) \<Rightarrow> Inr (\<not> gt, h', ev))"

definition GreaterOrEqual ::
  "'b Execute \<Rightarrow> 'b ObjectHolder \<Rightarrow> 'b ObjectHolder \<Rightarrow> Context \<Rightarrow> 'b heap
     \<Rightarrow> error + (bool \<times> 'b heap \<times> event list)" where
  "GreaterOrEqual exec lhs rhs context h =
     (case Less exec lhs rhs context h of
        Inl e \<Rightarrow> Inl e
      | Inr (lt, h', ev) \<Rightarrow> Inr (\<not> lt, h', ev))"

section \<open>Lexer: tokens (lexer.h)\<close>

text \<open>
  The alternatives of \<open>TokenBase\<close>, in the order of the variant. The structs of namespace
  \<open>token_type\<close> carry the prefix \<open>T_\<close> here. \<open>Number\<close> holds an \<open>int\<close>.
\<close>

datatype Token =
    T_Number "32 word"
  | T_Id string
  | T_Char char
  | T_String string
  | T_Class
  | T_Return
  | T_If
  | T_Else
  | T_Def
  | T_Newline
  | T_Print
  | T_Indent
  | T_Dedent
  | T_And
  | T_Or
  | T_Not
  | T_Eq
  | T_NotEq
  | T_LessOrEq
  | T_GreaterOrEq
  | T_None
  | T_True
  | T_False
  | T_Eof

section \<open>Lexer: the input stream\<close>

text \<open>
  A \<open>std::istream\<close> over a finite character sequence: the characters not yet read, the
  characters already read (most recent first: what \<open>putback\<close> and \<open>unget\<close> step back
  over), and the three state bits. Putting back is not limited by a buffer size here. An
  \<open>int\<close> result of \<open>get\<close> or \<open>peek\<close> is a \<open>char option\<close>, \<open>None\<close> being \<open>EOF\<close>.
\<close>

record istream =
  rest :: string
  prev :: string
  eofbit :: bool
  failbit :: bool
  badbit :: bool

definition istream_of :: "string \<Rightarrow> istream" where
  "istream_of text = \<lparr>rest = text, prev = [], eofbit = False, failbit = False, badbit = False\<rparr>"

definition good :: "istream \<Rightarrow> bool" where
  "good s \<longleftrightarrow> \<not> eofbit s \<and> \<not> failbit s \<and> \<not> badbit s"

definition fail :: "istream \<Rightarrow> bool" where
  "fail s \<longleftrightarrow> failbit s \<or> badbit s"

definition eof :: "istream \<Rightarrow> bool" where
  "eof s \<longleftrightarrow> eofbit s"

text \<open>
  The sentry of an unformatted input function: it lets the function proceed on a good
  stream and sets \<open>failbit\<close> otherwise.
\<close>

definition sentry :: "istream \<Rightarrow> bool \<times> istream" where
  "sentry s = (if good s then (True, s) else (False, s\<lparr>failbit := True\<rparr>))"

text \<open>The stream buffer: \<open>sgetc\<close> looks at the next character, \<open>sbumpc\<close> steps over it.\<close>

definition sgetc :: "istream \<Rightarrow> char option" where
  "sgetc s = (case rest s of [] \<Rightarrow> None | c # _ \<Rightarrow> Some c)"

definition sbumpc :: "istream \<Rightarrow> istream" where
  "sbumpc s = (case rest s of [] \<Rightarrow> s | c # cs \<Rightarrow> s\<lparr>rest := cs, prev := c # prev s\<rparr>)"

definition peek :: "istream \<Rightarrow> char option \<times> istream" where
  "peek s =
     (case sentry s of
        (True, s1) \<Rightarrow> (case sgetc s1 of None \<Rightarrow> (None, s1\<lparr>eofbit := True\<rparr>) | Some c \<Rightarrow> (Some c, s1))
      | (False, s1) \<Rightarrow> (None, s1))"

definition get :: "istream \<Rightarrow> char option \<times> istream" where
  "get s =
     (case sentry s of
        (True, s1) \<Rightarrow>
          (case sgetc s1 of
             None \<Rightarrow> (None, s1\<lparr>eofbit := True, failbit := True\<rparr>)
           | Some c \<Rightarrow> (Some c, sbumpc s1))
      | (False, s1) \<Rightarrow> (None, s1))"

text \<open>
  \<open>putback\<close> and \<open>unget\<close> clear \<open>eofbit\<close> first. \<open>putback(c)\<close> steps back over the last
  character read when it is \<open>c\<close> (the lexer puts back nothing else); a failure of the buffer
  sets \<open>badbit\<close>.
\<close>

definition putback :: "char \<Rightarrow> istream \<Rightarrow> istream" where
  "putback c s =
     (case sentry (s\<lparr>eofbit := False\<rparr>) of
        (True, s1) \<Rightarrow>
          (case prev s1 of
             [] \<Rightarrow> s1\<lparr>badbit := True\<rparr>
           | p # ps \<Rightarrow> if p = c then s1\<lparr>rest := p # rest s1, prev := ps\<rparr> else s1\<lparr>badbit := True\<rparr>)
      | (False, s1) \<Rightarrow> s1)"

definition unget :: "istream \<Rightarrow> istream" where
  "unget s =
     (case sentry (s\<lparr>eofbit := False\<rparr>) of
        (True, s1) \<Rightarrow>
          (case prev s1 of
             [] \<Rightarrow> s1\<lparr>badbit := True\<rparr>
           | p # ps \<Rightarrow> s1\<lparr>rest := p # rest s1, prev := ps\<rparr>)
      | (False, s1) \<Rightarrow> s1)"

text \<open>
  \<open>ignore(n, delim)\<close> extracts characters until \<open>n\<close> have been extracted, or the end of the
  input is met (\<open>eofbit\<close>), or \<open>delim\<close> has been extracted, tested in this order.
\<close>

fun ignore_loop :: "nat \<Rightarrow> char \<Rightarrow> istream \<Rightarrow> istream" where
  "ignore_loop 0 delim s = s"
| "ignore_loop (Suc n) delim s =
     (case sgetc s of
        None \<Rightarrow> s\<lparr>eofbit := True\<rparr>
      | Some c \<Rightarrow> if c = delim then sbumpc s else ignore_loop n delim (sbumpc s))"

definition ignore :: "nat \<Rightarrow> char \<Rightarrow> istream \<Rightarrow> istream" where
  "ignore n delim s = (case sentry s of (True, s1) \<Rightarrow> ignore_loop n delim s1 | (False, s1) \<Rightarrow> s1)"

text \<open>\<open>static_cast<char>\<close> of an \<open>int\<close> read from the stream: \<open>EOF\<close> is -1, the byte 0xFF.\<close>

definition static_cast_char :: "char option \<Rightarrow> char" where
  "static_cast_char i = (case i of None \<Rightarrow> CHR 0xFF | Some c \<Rightarrow> c)"

text \<open>
  The classification functions of \<open><cctype>\<close> in the "C" locale, which the program never
  changes; they are false on \<open>EOF\<close> and on the bytes above 127.
\<close>

definition isalpha :: "char \<Rightarrow> bool" where
  "isalpha c \<longleftrightarrow> (let n = (of_char c :: nat) in (65 \<le> n \<and> n \<le> 90) \<or> (97 \<le> n \<and> n \<le> 122))"

definition isdigit :: "char \<Rightarrow> bool" where
  "isdigit c \<longleftrightarrow> (let n = (of_char c :: nat) in 48 \<le> n \<and> n \<le> 57)"

definition ispunct :: "char \<Rightarrow> bool" where
  "ispunct c \<longleftrightarrow>
     (let n = (of_char c :: nat)
      in (33 \<le> n \<and> n \<le> 47) \<or> (58 \<le> n \<and> n \<le> 64) \<or> (91 \<le> n \<and> n \<le> 96) \<or> (123 \<le> n \<and> n \<le> 126))"

definition isalpha_int :: "char option \<Rightarrow> bool" where
  "isalpha_int i = (case i of None \<Rightarrow> False | Some c \<Rightarrow> isalpha c)"

definition isdigit_int :: "char option \<Rightarrow> bool" where
  "isdigit_int i = (case i of None \<Rightarrow> False | Some c \<Rightarrow> isdigit c)"

section \<open>Lexer: tokenization (lexer.cpp)\<close>

text \<open>The data members of \<open>Lexer\<close>: \<open>tokens_\<close>, \<open>prev_indent\<close> and \<open>current_pos\<close>.\<close>

record Lexer =
  tokens :: "Token list"
  prev_indent :: nat
  current_pos :: nat

definition push_back :: "Token \<Rightarrow> Lexer \<Rightarrow> Lexer" where
  "push_back t lx = lx\<lparr>tokens := tokens lx @ [t]\<rparr>"

subsection \<open>Words\<close>

definition KEYWORD_TO_TOKEN :: "(string \<times> Token) list" where
  "KEYWORD_TO_TOKEN =
     [(''class'', T_Class), (''return'', T_Return), (''if'', T_If), (''else'', T_Else),
      (''def'', T_Def), (''print'', T_Print), (''or'', T_Or), (''None'', T_None),
      (''not'', T_Not), (''and'', T_And), (''True'', T_True), (''False'', T_False)]"

definition USING_KEYWORDS :: "string list" where
  "USING_KEYWORDS =
     [''class'', ''return'', ''if'', ''else'', ''def'', ''print'',
      ''or'', ''None'', ''and'', ''not'', ''True'', ''False'']"

definition IsKeyWord :: "string \<Rightarrow> bool" where
  "IsKeyWord word \<longleftrightarrow> word \<in> set USING_KEYWORDS"

text \<open>
  \<open>ProcessKeyWord\<close>: a word found in the map is pushed; for any other word the source only
  constructs a \<open>std::runtime_error\<close> without throwing it, so nothing happens.
\<close>

definition ProcessKeyWord :: "string \<Rightarrow> Lexer \<Rightarrow> Lexer" where
  "ProcessKeyWord word lx =
     (case map_of KEYWORD_TO_TOKEN word of Some t \<Rightarrow> push_back t lx | None \<Rightarrow> lx)"

text \<open>
  The loop of \<open>ProcessWord\<close>. Its condition calls \<open>peek\<close> up to three times, left to right,
  stopping at the first test that holds.
\<close>

function word_loop :: "istream \<Rightarrow> string \<Rightarrow> istream \<times> string" where
  "word_loop input word =
     (case peek input of (p1, i1) \<Rightarrow>
        if isalpha_int p1
        then (case get i1 of (g, i') \<Rightarrow> word_loop i' (word @ [static_cast_char g]))
        else (case peek i1 of (p2, i2) \<Rightarrow>
          if isdigit_int p2
          then (case get i2 of (g, i') \<Rightarrow> word_loop i' (word @ [static_cast_char g]))
          else (case peek i2 of (p3, i3) \<Rightarrow>
            if p3 = Some CHR ''_''
            then (case get i3 of (g, i') \<Rightarrow> word_loop i' (word @ [static_cast_char g]))
            else (i3, word))))"
  by pat_completeness auto
termination
  by (relation "measure (\<lambda>(input, word). length (rest input))")
     (auto simp: peek_def get_def sentry_def sgetc_def sbumpc_def isalpha_int_def isdigit_int_def
           split: if_splits list.splits option.splits)

declare word_loop.simps [simp del]

definition ProcessWord :: "istream \<Rightarrow> Lexer \<Rightarrow> istream \<times> Lexer" where
  "ProcessWord input lx =
     (case word_loop input [] of (input', word) \<Rightarrow>
        if IsKeyWord word then (input', ProcessKeyWord word lx)
        else (input', push_back (T_Id word) lx))"

subsection \<open>Indentation and line ends\<close>

text \<open>
  The loop of \<open>ProcessIndent\<close>: \<open>while (input && static_cast<char>(input.peek()) == ' ')\<close>,
  where \<open>input\<close> as a condition is \<open>!fail()\<close>.
\<close>

function spaces_loop :: "istream \<Rightarrow> nat \<Rightarrow> istream \<times> nat" where
  "spaces_loop input space_count =
     (if \<not> fail input
      then (case peek input of (p, i1) \<Rightarrow>
              if static_cast_char p = CHR '' ''
              then (case get i1 of (g, i2) \<Rightarrow> spaces_loop i2 (space_count + 1))
              else (i1, space_count))
      else (input, space_count))"
  by pat_completeness auto
termination
  by (relation "measure (\<lambda>(input, space_count). length (rest input))")
     (auto simp: peek_def get_def sentry_def sgetc_def sbumpc_def static_cast_char_def
           split: if_splits list.splits option.splits)

declare spaces_loop.simps [simp del]

definition ProcessIndent :: "istream \<Rightarrow> Lexer \<Rightarrow> istream \<times> Lexer" where
  "ProcessIndent input lx =
     (case spaces_loop input 0 of (i1, space_count) \<Rightarrow>
        (case peek i1 of (p, i2) \<Rightarrow>
           if p = Some (CHR 0x0A) then (i2, lx)
           else (let indent = space_count div 2 in
             if indent > prev_indent lx
             then (i2, lx\<lparr>tokens := tokens lx @ replicate (indent - prev_indent lx) T_Indent,
                          prev_indent := indent\<rparr>)
             else if indent < prev_indent lx
             then (i2, lx\<lparr>tokens := tokens lx @ replicate (prev_indent lx - indent) T_Dedent,
                          prev_indent := indent\<rparr>)
             else (i2, lx))))"

definition ProcessNextLine :: "Lexer \<Rightarrow> Lexer" where
  "ProcessNextLine lx =
     (if tokens lx \<noteq> [] \<and> last (tokens lx) \<noteq> T_Newline then push_back T_Newline lx else lx)"

subsection \<open>Operators and symbols\<close>

definition IsComparisonOperator :: "char \<Rightarrow> char \<Rightarrow> bool" where
  "IsComparisonOperator left right \<longleftrightarrow>
     (let oper = [left, right] in oper = ''>='' \<or> oper = ''=='' \<or> oper = ''<='' \<or> oper = ''!='')"

definition ProcessComparisonOperator :: "char \<Rightarrow> char \<Rightarrow> Lexer \<Rightarrow> Lexer" where
  "ProcessComparisonOperator left right lx =
     (let oper = [left, right] in
      if oper = ''>='' then push_back T_GreaterOrEq lx
      else if oper = ''<='' then push_back T_LessOrEq lx
      else if oper = ''=='' then push_back T_Eq lx
      else if oper = ''!='' then push_back T_NotEq lx
      else lx)"

definition ProcessSymbol :: "char \<Rightarrow> Lexer \<Rightarrow> Lexer" where
  "ProcessSymbol c lx = push_back (T_Char c) lx"

subsection \<open>Numbers\<close>

function num_loop :: "istream \<Rightarrow> string \<Rightarrow> istream \<times> string" where
  "num_loop input num_str =
     (case peek input of (p, i1) \<Rightarrow>
        if isdigit_int p
        then (case get i1 of (g, i2) \<Rightarrow> num_loop i2 (num_str @ [static_cast_char g]))
        else (i1, num_str))"
  by pat_completeness auto
termination
  by (relation "measure (\<lambda>(input, num_str). length (rest input))")
     (auto simp: peek_def get_def sentry_def sgetc_def sbumpc_def isdigit_int_def
           split: if_splits list.splits option.splits)

declare num_loop.simps [simp del]

text \<open>
  \<open>std::stoi\<close> on the string of decimal digits that \<open>ProcessNum\<close> collects: the value, or
  \<open>std::out_of_range\<close> above \<open>INT_MAX\<close>. The collected string is never empty (on the empty
  string \<open>stoi\<close> throws \<open>std::invalid_argument\<close>).
\<close>

definition digits_value :: "string \<Rightarrow> nat" where
  "digits_value num_str = foldl (\<lambda>acc c. 10 * acc + (of_char c - 48)) 0 num_str"

definition stoi :: "string \<Rightarrow> error + 32 word" where
  "stoi num_str =
     (if num_str = [] then Inl StdInvalidArgument
      else if digits_value num_str > 2147483647 then Inl StdOutOfRange
      else Inr (word_of_nat (digits_value num_str)))"

definition ProcessNum :: "istream \<Rightarrow> Lexer \<Rightarrow> error + istream \<times> Lexer" where
  "ProcessNum input lx =
     (case num_loop input [] of (input', num_str) \<Rightarrow>
        (case stoi num_str of
           Inl e \<Rightarrow> Inl e
         | Inr result \<Rightarrow> Inr (input', push_back (T_Number result) lx)))"

subsection \<open>Comments\<close>

text \<open>
  The \<open>do ... while\<close> loop of \<open>IgnoreComment\<close>. On a stream whose \<open>failbit\<close> is set and
  whose \<open>eofbit\<close> is not, no call changes anything and the loop does not end; \<open>None\<close> is
  not returning.
\<close>

partial_function (option) IgnoreComment :: "istream \<Rightarrow> istream option" where
  "IgnoreComment input =
     (let i1 = ignore 1024 (CHR 0x0A) input;
          i2 = (if \<not> eof i1 then unget i1 else i1)
      in case peek i2 of (p, i3) \<Rightarrow>
           if p \<noteq> Some (CHR 0x0A) \<and> \<not> eof i3 then IgnoreComment i3 else Some i3)"

declare IgnoreComment.simps [code]

subsection \<open>String literals\<close>

text \<open>
  The loop of \<open>ProcessString\<close> reads through a \<open>std::istreambuf_iterator\<close>, that is from the
  stream buffer directly: \<open>it == end\<close> is \<open>sgetc\<close> returning \<open>EOF\<close>, \<open>*it\<close> is \<open>sgetc\<close>
  and \<open>++it\<close> is \<open>sbumpc\<close>; the state bits of the stream are not touched.
\<close>

definition escaped :: "char \<Rightarrow> char option" where
  "escaped escaped_char =
     (if escaped_char = CHR ''n'' then Some (CHR 0x0A)
      else if escaped_char = CHR ''t'' then Some (CHR 0x09)
      else if escaped_char = CHR ''r'' then Some (CHR 0x0D)
      else if escaped_char = CHR 0x22 then Some (CHR 0x22)
      else if escaped_char = CHR 0x27 then Some (CHR 0x27)
      else if escaped_char = CHR 0x5C then Some (CHR 0x5C)
      else None)"

function string_loop :: "char \<Rightarrow> istream \<Rightarrow> string \<Rightarrow> error + istream \<times> string" where
  "string_loop delim it s =
     (case sgetc it of
        None \<Rightarrow> Inl (ParsingError ''String parsing error'')
      | Some ch \<Rightarrow>
          if ch = delim then Inr (sbumpc it, s)
          else if ch = CHR 0x5C
          then (let it1 = sbumpc it in
                case sgetc it1 of
                  None \<Rightarrow> Inl (ParsingError ''String parsing error'')
                | Some escaped_char \<Rightarrow>
                    (case escaped escaped_char of
                       Some c \<Rightarrow> string_loop delim (sbumpc it1) (s @ [c])
                     | None \<Rightarrow>
                         Inl (ParsingError (''Unrecognized escape sequence '' @ [CHR 0x5C, escaped_char]))))
          else if ch = CHR 0x0A \<or> ch = CHR 0x0D then Inl (ParsingError ''Unexpected end of line'')
          else string_loop delim (sbumpc it) (s @ [ch]))"
  by pat_completeness auto
termination
  by (relation "measure (\<lambda>(delim, it, s). length (rest it))")
     (auto simp: sgetc_def sbumpc_def split: list.splits)

declare string_loop.simps [simp del]

definition ProcessString :: "istream \<Rightarrow> Lexer \<Rightarrow> error + istream \<times> Lexer" where
  "ProcessString input lx =
     (case get input of (g, i1) \<Rightarrow>
        (let delim = static_cast_char g in
         (case string_loop delim i1 [] of
            Inl e \<Rightarrow> Inl e
          | Inr (i2, s) \<Rightarrow> Inr (i2, push_back (T_String s) lx))))"

subsection \<open>The main loop\<close>

text \<open>
  \<open>ProcessNextToken\<close>. \<open>isalpha\<close>, \<open>isdigit\<close> and \<open>ispunct\<close> are applied to the \<open>char\<close>
  \<open>c\<close> here. The result is \<open>None\<close> where \<open>IgnoreComment\<close> does not return.
\<close>

definition ProcessNextToken :: "istream \<Rightarrow> Lexer \<Rightarrow> (error + istream \<times> Lexer) option" where
  "ProcessNextToken input lx =
     (case get input of (g, i1) \<Rightarrow>
        let c = static_cast_char g in
        if c = CHR 0x0A then Some (Inr (ProcessIndent i1 (ProcessNextLine lx)))
        else if c = CHR 0x22 \<or> c = CHR 0x27 then Some (ProcessString (putback c i1) lx)
        else if c = CHR ''_'' \<or> isalpha c then Some (Inr (ProcessWord (putback c i1) lx))
        else if isdigit c then Some (ProcessNum (putback c i1) lx)
        else if c = CHR ''#'' then map_option (\<lambda>i2. Inr (i2, lx)) (IgnoreComment i1)
        else if ispunct c
        then (case get i1 of (g2, i2) \<Rightarrow>
                let second_symbol = static_cast_char g2 in
                if IsComparisonOperator c second_symbol
                then Some (Inr (i2, ProcessComparisonOperator c second_symbol lx))
                else Some (Inr (putback second_symbol i2, ProcessSymbol c lx)))
        else Some (Inr (i1, lx)))"

text \<open>The loop \<open>while (input.good()) ProcessNextToken(input)\<close>.\<close>

partial_function (option) token_loop :: "istream \<Rightarrow> Lexer \<Rightarrow> (error + istream \<times> Lexer) option" where
  "token_loop input lx =
     (if good input
      then (case ProcessNextToken input lx of
              None \<Rightarrow> None
            | Some (Inl e) \<Rightarrow> Some (Inl e)
            | Some (Inr (input', lx')) \<Rightarrow> token_loop input' lx')
      else Some (Inr (input, lx)))"

declare token_loop.simps [code]

definition ProcessAllTokens :: "istream \<Rightarrow> Lexer \<Rightarrow> (error + istream \<times> Lexer) option" where
  "ProcessAllTokens input lx =
     (case ProcessIndent input lx of (i1, lx1) \<Rightarrow>
        (case token_loop i1 lx1 of
           None \<Rightarrow> None
         | Some (Inl e) \<Rightarrow> Some (Inl e)
         | Some (Inr (i2, lx2)) \<Rightarrow>
             (let lx3 = (if tokens lx2 \<noteq> [] \<and> last (tokens lx2) \<noteq> T_Dedent
                           \<and> last (tokens lx2) \<noteq> T_Newline
                        then ProcessNextLine lx2 else lx2)
              in Some (Inr (i2, push_back T_Eof lx3)))))"

text \<open>
  The constructor \<open>Lexer(input)\<close> on a fresh stream over \<open>text\<close>: the lexer it builds, or
  the exception that leaves it.
\<close>

definition Lexer_of :: "string \<Rightarrow> (error + Lexer) option" where
  "Lexer_of text =
     map_option (map_sum id snd)
       (ProcessAllTokens (istream_of text) \<lparr>tokens = [], prev_indent = 0, current_pos = 0\<rparr>)"

text \<open>\<open>CurrentToken\<close> and \<open>NextToken\<close>, the cursor over the token buffer.\<close>

definition CurrentToken :: "Lexer \<Rightarrow> Token" where
  "CurrentToken lx = (if current_pos lx < length (tokens lx) then tokens lx ! current_pos lx else T_Eof)"

definition NextToken :: "Lexer \<Rightarrow> Token \<times> Lexer" where
  "NextToken lx =
     (if current_pos lx < length (tokens lx)
      then (let lx' = lx\<lparr>current_pos := current_pos lx + 1\<rparr> in (CurrentToken lx', lx'))
      else (T_Eof, lx))"

section \<open>Notions used in the statements\<close>

subsection \<open>Scalar kinds\<close>

text \<open>Both holders hold a \<open>Bool\<close>, both a \<open>Number\<close>, or both a \<open>String\<close>.\<close>

fun same_scalar_kind :: "'b ObjectHolder \<Rightarrow> 'b ObjectHolder \<Rightarrow> bool" where
  "same_scalar_kind (Some (ObjBool a)) (Some (ObjBool b)) = True"
| "same_scalar_kind (Some (ObjNumber a)) (Some (ObjNumber b)) = True"
| "same_scalar_kind (Some (ObjString a)) (Some (ObjString b)) = True"
| "same_scalar_kind _ _ = False"

subsection \<open>The text of a string literal\<close>

text \<open>
  After its opening delimiter a string literal is a sequence of items, each a plain character
  (not the delimiter, a backslash, a newline or a carriage return) or a backslash followed by
  a character that \<open>escaped\<close> knows. What follows the items makes the literal malformed when
  it is the end of the input (also after a lone backslash), a newline or carriage return, or
  a backslash before a character that \<open>escaped\<close> does not know; \<open>literal_error\<close> gives the
  message of each case and \<open>None\<close> for any other continuation.
\<close>

definition plain_string_char :: "char \<Rightarrow> char \<Rightarrow> bool" where
  "plain_string_char delim ch \<longleftrightarrow>
     ch \<noteq> delim \<and> ch \<noteq> CHR 0x5C \<and> ch \<noteq> CHR 0x0A \<and> ch \<noteq> CHR 0x0D"

definition string_item :: "char \<Rightarrow> string \<Rightarrow> bool" where
  "string_item delim item \<longleftrightarrow>
     (\<exists>ch. item = [ch] \<and> plain_string_char delim ch)
     \<or> (\<exists>esc. item = [CHR 0x5C, esc] \<and> escaped esc \<noteq> None)"

fun literal_error :: "string \<Rightarrow> string option" where
  "literal_error [] = Some ''String parsing error''"
| "literal_error (c # cs) =
     (if c = CHR 0x0A \<or> c = CHR 0x0D then Some ''Unexpected end of line''
      else if c = CHR 0x5C
      then (case cs of
              [] \<Rightarrow> Some ''String parsing error''
            | esc # _ \<Rightarrow>
                if escaped esc = None
                then Some (''Unrecognized escape sequence '' @ [CHR 0x5C, esc]) else None)
      else None)"

definition fails_with_LexerError :: "(error + Lexer) option \<Rightarrow> bool" where
  "fails_with_LexerError res = (case res of Some (Inl (LexerError msg)) \<Rightarrow> True | _ \<Rightarrow> False)"

subsection \<open>Source lines and the tokens of a line\<close>

text \<open>
  A source line is a maximal run of characters without a newline character. It is blank
  when it has spaces only. Its level is the number of its leading spaces divided by two;
  \<open>indent_tokens\<close> are the \<open>Indent\<close> or \<open>Dedent\<close> tokens of a change of level. The tokens of
  the text of a line are those the lexer itself produces for that text, without its leading
  spaces, as an input of its own, up to the \<open>Newline\<close> and \<open>Eof\<close> that close that input.
  \<open>lines_tokens\<close> is the reading of the specification: every line gives the tokens of its
  change of level and of its text, followed by exactly one \<open>Newline\<close> when there is at least
  one of them, and by nothing when there is none.
\<close>

definition blank :: "string \<Rightarrow> bool" where
  "blank l \<longleftrightarrow> (\<forall>c\<in>set l. c = CHR '' '')"

definition line_level :: "string \<Rightarrow> nat" where
  "line_level l = length (takeWhile (\<lambda>c. c = CHR '' '') l) div 2"

definition indent_tokens :: "nat \<Rightarrow> nat \<Rightarrow> Token list" where
  "indent_tokens lvl k =
     (if k > lvl then replicate (k - lvl) T_Indent else replicate (lvl - k) T_Dedent)"

definition line_text_tokens :: "string \<Rightarrow> Token list" where
  "line_text_tokens l =
     (case Lexer_of (dropWhile (\<lambda>c. c = CHR '' '') l) of
        Some (Inr lx) \<Rightarrow> takeWhile (\<lambda>t. t \<noteq> T_Newline \<and> t \<noteq> T_Eof) (tokens lx)
      | _ \<Rightarrow> [])"

definition line_tokens :: "nat \<Rightarrow> string \<Rightarrow> Token list" where
  "line_tokens lvl l = indent_tokens lvl (line_level l) @ line_text_tokens l"

fun lines_tokens :: "nat \<Rightarrow> string list \<Rightarrow> Token list" where
  "lines_tokens lvl [] = []"
| "lines_tokens lvl (l # ls) =
     (if line_tokens lvl l = [] then [] else line_tokens lvl l @ [T_Newline])
     @ lines_tokens (line_level l) ls"

subsection \<open>A small program for concrete instances\<close>

text \<open>
  Method bodies that return a literal, return the value of a name of the closure, or throw;
  and the classes \<open>A\<close>, \<open>B\<close> deriving from \<open>A\<close> and overriding \<open>f\<close>, \<open>C\<close> deriving from
  \<open>A\<close> without \<open>f\<close>, \<open>D\<close> deriving from \<open>A\<close> with an \<open>f\<close> of one parameter, \<open>E\<close> with
  no method at all, \<open>F\<close> whose \<open>__eq__\<close> returns its argument, \<open>G\<close> deriving from \<open>A\<close>
  with a \<open>__str__\<close> of one parameter, and \<open>H\<close> deriving from \<open>D\<close> with an \<open>f\<close> of two
  parameters.
\<close>

datatype ex_body = ReturnNumber "32 word" | ReturnString string | ReturnBool bool
  | ReturnName string | Throw

fun ex_Execute :: "ex_body Execute" where
  "ex_Execute (ReturnNumber n) closure context h = Inr (Some (ObjNumber n), h, [])"
| "ex_Execute (ReturnString s) closure context h = Inr (Some (ObjString s), h, [])"
| "ex_Execute (ReturnBool b) closure context h = Inr (Some (ObjBool b), h, [])"
| "ex_Execute (ReturnName x) closure context h =
     (case closure x of Some v \<Rightarrow> Inr (v, h, []) | None \<Rightarrow> Inl (RuntimeError ''unknown name''))"
| "ex_Execute Throw closure context h = Inl (RuntimeError ''thrown'')"

definition ex_A :: "ex_body Class" where
  "ex_A = Class ''A''
     [Method ''f'' [] (ReturnNumber 1),
      Method ''__str__'' [] (ReturnString ''A!''),
      Method ''id'' [''x''] (ReturnName ''x'')] None"

definition ex_B :: "ex_body Class" where
  "ex_B = Class ''B'' [Method ''f'' [] (ReturnNumber 2)] (Some ex_A)"

definition ex_C :: "ex_body Class" where
  "ex_C = Class ''C'' [Method ''g'' [] (ReturnNumber 3)] (Some ex_A)"

definition ex_D :: "ex_body Class" where
  "ex_D = Class ''D'' [Method ''f'' [''x''] (ReturnName ''x'')] (Some ex_A)"

definition ex_E :: "ex_body Class" where
  "ex_E = Class ''E'' [] None"

definition ex_F :: "ex_body Class" where
  "ex_F = Class ''F'' [Method ''__eq__'' [''other''] (ReturnName ''other'')] None"


definition ex_H :: "ex_body Class" where
  "ex_H = Class ''H'' [Method ''f'' [''x'', ''y''] (ReturnName ''y'')] (Some ex_D)"

section \<open>Auxiliary notions for the proofs about the lexer\<close>

text \<open>
  None of these is part of the program: they describe streams and token buffers in the
  proofs below.
\<close>

definition stream_ok :: "istream \<Rightarrow> bool" where
  "stream_ok s \<longleftrightarrow> \<not> badbit s \<and> (\<not> good s \<longrightarrow> rest s = [])"

definition consumed :: "istream \<Rightarrow> istream \<Rightarrow> string \<Rightarrow> bool" where
  "consumed s s' cs \<longleftrightarrow> rest s = cs @ rest s' \<and> prev s' = rev cs @ prev s"

definition is_word_char :: "char \<Rightarrow> bool" where
  "is_word_char c \<longleftrightarrow> isalpha c \<or> isdigit c \<or> c = CHR ''_''"

definition plain :: "Token \<Rightarrow> bool" where
  "plain t \<longleftrightarrow> t \<noteq> T_Newline \<and> t \<noteq> T_Indent \<and> t \<noteq> T_Dedent \<and> t \<noteq> T_Eof"

definition set_indent :: "nat \<Rightarrow> Lexer \<Rightarrow> Lexer" where
  "set_indent indent lx =
     (if indent > prev_indent lx
      then lx\<lparr>tokens := tokens lx @ replicate (indent - prev_indent lx) T_Indent, prev_indent := indent\<rparr>
      else if indent < prev_indent lx
      then lx\<lparr>tokens := tokens lx @ replicate (prev_indent lx - indent) T_Dedent, prev_indent := indent\<rparr>
      else lx)"

definition step_ok :: "istream \<Rightarrow> Lexer \<Rightarrow> istream \<Rightarrow> Lexer \<Rightarrow> bool" where
  "step_ok s lx s' lx' \<longleftrightarrow>
     stream_ok s' \<and>
     ((rest s = [] \<and> rest s' = [] \<and> prev s' = prev s \<and> \<not> good s' \<and> lx' = lx)
      \<or> (\<exists>n. consumed s s' (CHR 0x0A # replicate n (CHR '' '')) \<and> take 1 (rest s') \<noteq> '' ''
            \<and> lx' = (if take 1 (rest s') = [CHR 0x0A] then ProcessNextLine lx
                      else set_indent (n div 2) (ProcessNextLine lx)))
      \<or> (\<exists>cs. consumed s s' cs \<and> cs \<noteq> [] \<and> CHR 0x0A \<notin> set cs
            \<and> (lx' = lx \<or> (\<exists>t. plain t \<and> lx' = push_back t lx))))"

abbreviation gs :: "string \<Rightarrow> string \<Rightarrow> istream" where
  "gs r p \<equiv> \<lparr>rest = r, prev = p, eofbit = False, failbit = False, badbit = False\<rparr>"

definition bal :: "Lexer \<Rightarrow> bool" where
  "bal lx \<longleftrightarrow>
     count_list (tokens lx) T_Indent = count_list (tokens lx) T_Dedent + prev_indent lx
     \<and> (\<forall>n. count_list (take n (tokens lx)) T_Dedent \<le> count_list (take n (tokens lx)) T_Indent)"

text \<open>No two neighbouring \<open>Newline\<close> tokens.\<close>

definition adj_ok :: "Token list \<Rightarrow> bool" where
  "adj_ok ts \<longleftrightarrow> (\<forall>i. Suc i < length ts \<longrightarrow> ts ! i \<noteq> T_Newline \<or> ts ! Suc i \<noteq> T_Newline)"

text \<open>The buffer as finished lines, each closed by one \<open>Newline\<close>, and the open line.\<close>

definition grouped :: "Token list \<Rightarrow> Token list list \<Rightarrow> Token list \<Rightarrow> bool" where
  "grouped ts groups cur \<longleftrightarrow>
     ts = concat (map (\<lambda>g. g @ [T_Newline]) groups) @ cur
     \<and> (\<forall>g\<in>set groups. g \<noteq> [] \<and> T_Newline \<notin> set g \<and> T_Eof \<notin> set g)
     \<and> T_Newline \<notin> set cur \<and> T_Eof \<notin> set cur
     \<and> (cur \<noteq> [] \<and> last cur = T_Dedent \<longrightarrow> set cur \<subseteq> {T_Dedent})"

definition lex_inv :: "string \<Rightarrow> istream \<Rightarrow> Lexer \<Rightarrow> bool" where
  "lex_inv text s lx \<longleftrightarrow>
     bal lx \<and> adj_ok (tokens lx) \<and> (\<exists>groups cur. grouped (tokens lx) groups cur)
     \<and> rev (prev s) @ rest s = text
     \<and> (rest s = [] \<and> take 1 (prev s) = [CHR 0x0A] \<longrightarrow> prev_indent lx = 0)"

definition lexer0 :: Lexer where
  "lexer0 = \<lparr>tokens = [], prev_indent = 0, current_pos = 0\<rparr>"

text \<open>More tokens at the end of the buffer.\<close>

definition more_tokens :: "Token list \<Rightarrow> Lexer \<Rightarrow> Lexer" where
  "more_tokens ts lx = lx\<lparr>tokens := tokens lx @ ts\<rparr>"

text \<open>The run from the start of a line: \<open>ProcessIndent\<close>, then the main loop.\<close>

definition line_start :: "istream \<Rightarrow> Lexer \<Rightarrow> (error + istream \<times> Lexer) option" where
  "line_start s lx = (case ProcessIndent s lx of (s1, lx1) \<Rightarrow> token_loop s1 lx1)"

section \<open>Properties of the runtime\<close>

subsection \<open>Truthiness\<close>

text \<open>
  C4. For every value \<open>v\<close>, \<open>IsTrue v\<close> holds if and only if \<open>v\<close> is a Number different
  from 0, the Bool true, or a non-empty String; for a class instance, a class and the empty
  holder it is false. \<open>IsTrue\<close> is a total function returning a \<open>bool\<close>: it has no failing
  branch.
\<close>

theorem IsTrue_iff:
  "IsTrue v \<longleftrightarrow>
     (\<exists>n. v = Some (ObjNumber n) \<and> n \<noteq> 0) \<or> v = Some (ObjBool True)
       \<or> (\<exists>s. v = Some (ObjString s) \<and> s \<noteq> [])"
  by (cases v rule: IsTrue.cases) auto

subsection \<open>Method resolution and calls\<close>

lemma find_append_case:
  "List.find P (xs @ ys) = (case List.find P xs of Some x \<Rightarrow> Some x | None \<Rightarrow> List.find P ys)"
  by (induction xs) auto

lemma metod_name_to_ptr_find_aux:
  "fold (\<lambda>method tbl. tbl(name method \<mapsto> method)) ms tbl nm =
     (case List.find (\<lambda>m. name m = nm) (rev ms) of Some m \<Rightarrow> Some m | None \<Rightarrow> tbl nm)"
  by (induction ms arbitrary: tbl) (auto simp: find_append_case split: option.splits)

text \<open>The index of a class finds the last method of that name in \<open>methods_\<close>.\<close>

lemma metod_name_to_ptr_find:
  "metod_name_to_ptr cls nm = List.find (\<lambda>m. name m = nm) (rev (class_methods cls))"
  by (simp add: metod_name_to_ptr_def metod_name_to_ptr_find_aux split: option.splits)

lemma GetMethod_unfold:
  "GetMethod cls method_name =
     (case metod_name_to_ptr cls method_name of
        Some method \<Rightarrow> Some method
      | None \<Rightarrow> (case class_parent cls of Some p \<Rightarrow> GetMethod p method_name | None \<Rightarrow> None))"
  by (cases cls) (auto split: option.splits)

lemma call_closure_dom_aux:
  "n \<le> length params \<Longrightarrow>
   dom (fold (\<lambda>i args. args(params ! i \<mapsto> actual_args ! i)) [0..<n] init) = dom init \<union> set (take n params)"
  by (induction n) (auto simp: take_Suc_conv_app_nth)

lemma dom_call_closure: "dom (call_closure this params actual_args) = insert ''self'' (set params)"
  by (simp add: call_closure_def call_closure_dom_aux)

lemma call_closure_fold_aux:
  "n \<le> length params \<Longrightarrow> n \<le> length actual_args \<Longrightarrow>
   fold (\<lambda>i args. args(params ! i \<mapsto> actual_args ! i)) [0..<n] init =
     init ++ map_of (rev (zip (take n params) (take n actual_args)))"
proof (induction n)
  case 0
  then show ?case by simp
next
  case (Suc n)
  then have "take (Suc n) params = take n params @ [params ! n]"
    and "take (Suc n) actual_args = take n actual_args @ [actual_args ! n]"
    by (simp_all add: take_Suc_conv_app_nth)
  with Suc show ?case
    by (auto simp: fun_eq_iff map_add_def split: option.splits)
qed

lemma call_closure_map_of:
  "length params = length actual_args \<Longrightarrow>
   call_closure this params actual_args =
     [''self'' \<mapsto> Share this] ++ map_of (rev (zip params actual_args))"
  by (simp add: call_closure_def call_closure_fold_aux)

lemma call_closure_distinct:
  assumes "length params = length actual_args" "distinct params" "''self'' \<notin> set params"
  shows "call_closure this params actual_args ''self'' = Some (Share this)"
    and "\<forall>i<length params. call_closure this params actual_args (params ! i) = Some (actual_args ! i)"
proof -
  have d: "distinct (map fst (rev (zip params actual_args)))"
    using assms by (simp add: rev_map [symmetric] distinct_rev)
  have "fst ` set (zip params actual_args) = set params"
    using assms(1) by (metis map_fst_zip set_map)
  then have "map_of (rev (zip params actual_args)) ''self'' = None"
    using assms(3) by (simp add: map_of_eq_None_iff)
  then show "call_closure this params actual_args ''self'' = Some (Share this)"
    using assms(1) by (simp add: call_closure_map_of map_add_def)
  show "\<forall>i<length params. call_closure this params actual_args (params ! i) = Some (actual_args ! i)"
  proof (intro allI impI)
    fix i assume i: "i < length params"
    then have "(params ! i, actual_args ! i) \<in> set (rev (zip params actual_args))"
      using assms by (auto simp: set_zip)
    with d have "map_of (rev (zip params actual_args)) (params ! i) = Some (actual_args ! i)"
      by (rule map_of_is_SomeI)
    then show "call_closure this params actual_args (params ! i) = Some (actual_args ! i)"
      using assms by (simp add: call_closure_map_of map_add_def)
  qed
qed

lemma ex_tables:
  "metod_name_to_ptr ex_A ''f'' = Some (Method ''f'' [] (ReturnNumber 1))"
  "metod_name_to_ptr ex_A ''id'' = Some (Method ''id'' [''x''] (ReturnName ''x''))"
  "metod_name_to_ptr ex_A ''__str__'' = Some (Method ''__str__'' [] (ReturnString ''A!''))"
  "metod_name_to_ptr ex_B ''f'' = Some (Method ''f'' [] (ReturnNumber 2))"
  "metod_name_to_ptr ex_C ''f'' = None"
  "metod_name_to_ptr ex_D ''f'' = Some (Method ''f'' [''x''] (ReturnName ''x''))"
  "metod_name_to_ptr ex_E ''__str__'' = None"
  "metod_name_to_ptr ex_B ''__str__'' = None"
  "class_parent ex_B = Some ex_A" "class_parent ex_C = Some ex_A" "class_parent ex_D = Some ex_A"
  "class_parent ex_E = None"
  by (simp_all add: metod_name_to_ptr_def ex_A_def ex_B_def ex_C_def ex_D_def ex_E_def)

text \<open>
  C5. \<open>GetMethod\<close> of a class looks the name up in the class's own index; on a miss it is
  \<open>GetMethod\<close> of the parent, and \<open>None\<close> (the null pointer) for a class without parent.
  Hence, for a class \<open>B\<close> with parent \<open>A\<close>: if both define \<open>m\<close> with as many parameters
  as the call has arguments, a call of \<open>m\<close> on an instance of \<open>B\<close> executes the body of
  \<open>B\<close>'s \<open>m\<close>; if \<open>B\<close> does not define \<open>m\<close> and \<open>A\<close> does, it executes the body of \<open>A\<close>'s
  \<open>m\<close>.
\<close>

theorem GetMethod_dispatch:
  "GetMethod cls m =
     (case metod_name_to_ptr cls m of
        Some method \<Rightarrow> Some method
      | None \<Rightarrow> (case class_parent cls of Some p \<Rightarrow> GetMethod p m | None \<Rightarrow> None))
   \<and> (class_parent B = Some A \<and> metod_name_to_ptr B m = Some mB \<and> metod_name_to_ptr A m = Some mA
        \<and> length (formal_params mB) = length args \<and> length (formal_params mA) = length args
      \<longrightarrow> Call exec (ClassInstance a B) m args c h =
            exec (body mB) (call_closure (ClassInstance a B) (formal_params mB) args) c h)
   \<and> (class_parent B = Some A \<and> metod_name_to_ptr B m = None \<and> metod_name_to_ptr A m = Some mA
        \<and> length (formal_params mA) = length args
      \<longrightarrow> Call exec (ClassInstance a B) m args c h =
            exec (body mA) (call_closure (ClassInstance a B) (formal_params mA) args) c h)"
proof (intro conjI impI)
  show "GetMethod cls m =
     (case metod_name_to_ptr cls m of
        Some method \<Rightarrow> Some method
      | None \<Rightarrow> (case class_parent cls of Some p \<Rightarrow> GetMethod p m | None \<Rightarrow> None))"
    by (rule GetMethod_unfold)
next
  assume "class_parent B = Some A \<and> metod_name_to_ptr B m = Some mB \<and> metod_name_to_ptr A m = Some mA
        \<and> length (formal_params mB) = length args \<and> length (formal_params mA) = length args"
  then have "GetMethod B m = Some mB" and "length (formal_params mB) = length args"
    by (simp_all add: GetMethod_unfold [of B])
  then show "Call exec (ClassInstance a B) m args c h =
            exec (body mB) (call_closure (ClassInstance a B) (formal_params mB) args) c h"
    by (simp add: Call_def HasMethod_def)
next
  assume "class_parent B = Some A \<and> metod_name_to_ptr B m = None \<and> metod_name_to_ptr A m = Some mA
        \<and> length (formal_params mA) = length args"
  then have "GetMethod B m = Some mA" and "length (formal_params mA) = length args"
    by (simp_all add: GetMethod_unfold [of B] GetMethod_unfold [of A])
  then show "Call exec (ClassInstance a B) m args c h =
            exec (body mA) (call_closure (ClassInstance a B) (formal_params mA) args) c h"
    by (simp add: Call_def HasMethod_def)
qed

theorem GetMethod_dispatch_witness:
  "Call ex_Execute (ClassInstance 7 ex_B) ''f'' [] (Context 0) Map.empty
     = Inr (Some (ObjNumber 2), Map.empty, [])
   \<and> Call ex_Execute (ClassInstance 8 ex_C) ''f'' [] (Context 0) Map.empty
     = Inr (Some (ObjNumber 1), Map.empty, [])"
  using GetMethod_dispatch [of ex_B "''f''" ex_B ex_A "Method ''f'' [] (ReturnNumber 2)"
      "Method ''f'' [] (ReturnNumber 1)" "[]" ex_Execute 7 "Context 0" Map.empty]
    GetMethod_dispatch [of ex_C "''f''" ex_C ex_A "Method ''f'' [] (ReturnNumber 3)"
      "Method ''f'' [] (ReturnNumber 1)" "[]" ex_Execute 8 "Context 0" Map.empty]
  by (simp add: ex_tables)

text \<open>
  C10. The name is resolved before the parameter count is compared: when the own index of a
  class \<open>B\<close> has a method \<open>m\<close> with \<open>j\<close> parameters and \<open>k \<noteq> j\<close>, then \<open>GetMethod\<close> stops
  at this method, an instance of \<open>B\<close> has \<open>HasMethod m k = False\<close> and a call of \<open>m\<close> with
  \<open>k\<close> arguments fails with the runtime error of \<open>Call\<close>. Nothing is asked of the classes
  above \<open>B\<close>: this holds whatever its parent and the further ancestors define, so also when
  one of them defines \<open>m\<close> with \<open>k\<close> parameters.
\<close>

theorem shadowing_before_arity:
  assumes "metod_name_to_ptr B m = Some mB" "length (formal_params mB) = j"
    and "k \<noteq> j" "length args = k"
  shows "GetMethod B m = Some mB
     \<and> \<not> HasMethod (ClassInstance a B) m k
     \<and> Call exec (ClassInstance a B) m args c h = Inl (RuntimeError ''Cannot call method'')"
proof -
  from assms have g: "GetMethod B m = Some mB" by (simp add: GetMethod_unfold [of B])
  with assms have "\<not> HasMethod (ClassInstance a B) m k" by (auto simp: HasMethod_def)
  with assms g show ?thesis by (simp add: Call_def)
qed

theorem shadowing_before_arity_witness:
  "HasMethod (ClassInstance 1 ex_A) ''f'' 0
   \<and> \<not> HasMethod (ClassInstance 2 ex_D) ''f'' 0
   \<and> Call ex_Execute (ClassInstance 2 ex_D) ''f'' [] (Context 0) Map.empty
       = Inl (RuntimeError ''Cannot call method'')
   \<and> HasMethod (ClassInstance 2 ex_D) ''f'' 1
   \<and> \<not> HasMethod (ClassInstance 4 ex_H) ''f'' 0
   \<and> \<not> HasMethod (ClassInstance 4 ex_H) ''f'' 1
   \<and> Call ex_Execute (ClassInstance 4 ex_H) ''f'' [] (Context 0) Map.empty
       = Inl (RuntimeError ''Cannot call method'')
   \<and> Call ex_Execute (ClassInstance 4 ex_H) ''f'' [None] (Context 0) Map.empty
       = Inl (RuntimeError ''Cannot call method'')"
proof -
  have A: "HasMethod (ClassInstance 1 ex_A) ''f'' 0"
    by (simp add: HasMethod_def GetMethod_unfold [of ex_A] ex_tables)
  have D: "HasMethod (ClassInstance 2 ex_D) ''f'' 1"
    by (simp add: HasMethod_def GetMethod_unfold [of ex_D] ex_tables)
  have t: "metod_name_to_ptr ex_D ''f'' = Some (Method ''f'' [''x''] (ReturnName ''x''))"
    by (simp add: ex_tables)
  have u: "metod_name_to_ptr ex_H ''f'' = Some (Method ''f'' [''x'', ''y''] (ReturnName ''y''))"
    by (simp add: metod_name_to_ptr_def ex_H_def)
  from shadowing_before_arity [OF t, of 1 0 "[]" 2 ex_Execute "Context 0" Map.empty]
    shadowing_before_arity [OF u, of 2 0 "[]" 4 ex_Execute "Context 0" Map.empty]
    shadowing_before_arity [OF u, of 2 1 "[None]" 4 ex_Execute "Context 0" Map.empty] A D
  show ?thesis by simp
qed

text \<open>
  C6. \<open>Call\<close> throws its runtime error exactly when \<open>HasMethod\<close> is false for the name and
  the number of arguments, and then executes nothing. When \<open>HasMethod\<close> holds, the result of
  \<open>Call\<close>, value or exception, is that of executing the body of the method found against a
  fresh closure; this closure binds \<open>self\<close> to a holder of the instance and then each formal
  parameter, in order, to the argument at the same position, and nothing else: when the
  parameters are distinct and none is called \<open>self\<close>, \<open>self\<close> is the instance and every
  parameter is its argument.
\<close>

theorem Call_dispatch:
  "(\<not> HasMethod this nm (length args) \<longrightarrow>
      Call exec this nm args c h = Inl (RuntimeError ''Cannot call method''))
   \<and> (HasMethod this nm (length args) \<longrightarrow>
        (\<exists>method. GetMethod (instance_class this) nm = Some method
           \<and> length (formal_params method) = length args
           \<and> Call exec this nm args c h =
               exec (body method) (call_closure this (formal_params method) args) c h
           \<and> call_closure this (formal_params method) args =
               [''self'' \<mapsto> Some (ObjClassInstance this)] ++ map_of (rev (zip (formal_params method) args))
           \<and> dom (call_closure this (formal_params method) args) = insert ''self'' (set (formal_params method))
           \<and> (distinct (formal_params method) \<and> ''self'' \<notin> set (formal_params method) \<longrightarrow>
                call_closure this (formal_params method) args ''self'' = Some (Some (ObjClassInstance this))
                \<and> (\<forall>i<length args.
                      call_closure this (formal_params method) args (formal_params method ! i) = Some (args ! i)))))"
proof (intro conjI impI)
  assume "\<not> HasMethod this nm (length args)"
  then show "Call exec this nm args c h = Inl (RuntimeError ''Cannot call method'')"
    by (simp add: Call_def)
next
  assume "HasMethod this nm (length args)"
  then obtain meth where m: "GetMethod (instance_class this) nm = Some meth"
    "length (formal_params meth) = length args"
    by (auto simp: HasMethod_def split: option.splits)
  show "\<exists>method. GetMethod (instance_class this) nm = Some method
           \<and> length (formal_params method) = length args
           \<and> Call exec this nm args c h =
               exec (body method) (call_closure this (formal_params method) args) c h
           \<and> call_closure this (formal_params method) args =
               [''self'' \<mapsto> Some (ObjClassInstance this)] ++ map_of (rev (zip (formal_params method) args))
           \<and> dom (call_closure this (formal_params method) args) = insert ''self'' (set (formal_params method))
           \<and> (distinct (formal_params method) \<and> ''self'' \<notin> set (formal_params method) \<longrightarrow>
                call_closure this (formal_params method) args ''self'' = Some (Some (ObjClassInstance this))
                \<and> (\<forall>i<length args.
                      call_closure this (formal_params method) args (formal_params method ! i) = Some (args ! i)))"
  proof (intro exI [of _ meth] conjI impI)
    show "Call exec this nm args c h =
               exec (body meth) (call_closure this (formal_params meth) args) c h"
      using m by (simp add: Call_def HasMethod_def)
    show "call_closure this (formal_params meth) args =
               [''self'' \<mapsto> Some (ObjClassInstance this)] ++ map_of (rev (zip (formal_params meth) args))"
      using m call_closure_map_of [of "formal_params meth" args this] by (simp add: Share_def)
    show "dom (call_closure this (formal_params meth) args) = insert ''self'' (set (formal_params meth))"
      by (rule dom_call_closure)
  next
    assume "distinct (formal_params meth) \<and> ''self'' \<notin> set (formal_params meth)"
    then show "call_closure this (formal_params meth) args ''self'' = Some (Some (ObjClassInstance this))"
      using m call_closure_distinct(1) [of "formal_params meth" args this] by (simp add: Share_def)
  next
    assume "distinct (formal_params meth) \<and> ''self'' \<notin> set (formal_params meth)"
    then show "\<forall>i<length args.
                      call_closure this (formal_params meth) args (formal_params meth ! i) = Some (args ! i)"
      using m call_closure_distinct(2) [of "formal_params meth" args this] by simp
  qed (use m in simp_all)
qed

theorem Call_dispatch_witness:
  "Call ex_Execute (ClassInstance 3 ex_A) ''id'' [Some (ObjNumber 5)] (Context 0) Map.empty
     = Inr (Some (ObjNumber 5), Map.empty, [])
   \<and> Call ex_Execute (ClassInstance 3 ex_A) ''id'' [] (Context 0) Map.empty
     = Inl (RuntimeError ''Cannot call method'')
   \<and> call_closure (ClassInstance 3 ex_A) [''x''] [Some (ObjNumber 5)] ''self''
     = Some (Some (ObjClassInstance (ClassInstance 3 ex_A)))
   \<and> call_closure (ClassInstance 3 ex_A) [''x''] [Some (ObjNumber 5)] ''x'' = Some (Some (ObjNumber 5))"
proof -
  have g: "GetMethod ex_A ''id'' = Some (Method ''id'' [''x''] (ReturnName ''x''))"
    by (simp add: GetMethod_unfold [of ex_A] ex_tables)
  then have yes: "HasMethod (ClassInstance 3 ex_A) ''id'' (length [Some (ObjNumber 5 :: ex_body Object)])"
    and no: "\<not> HasMethod (ClassInstance 3 ex_A) ''id'' (length ([] :: ex_body ObjectHolder list))"
    by (simp_all add: HasMethod_def)
  from Call_dispatch [of "ClassInstance 3 ex_A" "''id''" "[Some (ObjNumber 5)]" ex_Execute "Context 0"
      Map.empty] yes g
  have 1: "Call ex_Execute (ClassInstance 3 ex_A) ''id'' [Some (ObjNumber 5)] (Context 0) Map.empty
      = ex_Execute (ReturnName ''x'') (call_closure (ClassInstance 3 ex_A) [''x''] [Some (ObjNumber 5)])
          (Context 0) Map.empty"
    and 2: "call_closure (ClassInstance 3 ex_A) [''x''] [Some (ObjNumber 5)] ''self''
      = Some (Some (ObjClassInstance (ClassInstance 3 ex_A)))"
    and 3: "call_closure (ClassInstance 3 ex_A) [''x''] [Some (ObjNumber 5)] ''x''
      = Some (Some (ObjNumber 5))"
    by auto
  from Call_dispatch [of "ClassInstance 3 ex_A" "''id''" "[]" ex_Execute "Context 0" Map.empty] no
  have 4: "Call ex_Execute (ClassInstance 3 ex_A) ''id'' [] (Context 0) Map.empty
      = Inl (RuntimeError ''Cannot call method'')"
    by blast
  from 1 2 3 4 show ?thesis by simp
qed

subsection \<open>Comparisons\<close>

text \<open>
  C1. \<open>Equal\<close> follows this order of rules: two empty holders are equal; otherwise a class
  instance on the left decides, through \<open>IsTrue\<close> of the result of calling its method named
  \<open>__eq__\<close> with the right side as the only argument when \<open>HasMethod\<close> holds for \<open>__eq__\<close> and
  one argument, and by a runtime error when it does not; otherwise two scalars of the same
  kind are compared by value (for such holders equality of the values is equality of the
  holders); everything else, an empty holder on one side only and scalars of different kinds
  included, is a runtime error.
\<close>

theorem Equal_rule_order:
  "Equal exec lhs rhs c h =
     (if lhs = None \<and> rhs = None then Inr (True, h, [])
      else case lhs of
          Some (ObjClassInstance this) \<Rightarrow>
            if HasMethod this ''__eq__'' 1
            then (case Call exec this ''__eq__'' [rhs] c h of
                    Inl e \<Rightarrow> Inl e
                  | Inr (r, h', ev) \<Rightarrow> Inr (IsTrue r, h', ev))
            else Inl (RuntimeError ''Cannot compare objects for equality'')
        | _ \<Rightarrow>
            if same_scalar_kind lhs rhs then Inr (lhs = rhs, h, [])
            else Inl (RuntimeError ''Cannot compare objects for equality''))"
  by (cases "(exec, lhs, rhs, c, h)" rule: Equal.cases) (auto simp: EQUAL_METHOD_def)

theorem Equal_rule_order_witness:
  "Equal ex_Execute (Some (ObjClassInstance (ClassInstance 3 ex_F))) (Some (ObjNumber 5))
       (Context 0) Map.empty = Inr (True, Map.empty, [])
   \<and> Equal ex_Execute (Some (ObjClassInstance (ClassInstance 3 ex_F))) (Some (ObjNumber 0))
       (Context 0) Map.empty = Inr (False, Map.empty, [])
   \<and> Equal ex_Execute (Some (ObjClassInstance (ClassInstance 6 ex_E))) (Some (ObjNumber 0))
       (Context 0) Map.empty = Inl (RuntimeError ''Cannot compare objects for equality'')
   \<and> Equal ex_Execute (Some (ObjNumber 0)) (Some (ObjClassInstance (ClassInstance 3 ex_F)))
       (Context 0) Map.empty = Inl (RuntimeError ''Cannot compare objects for equality'')
   \<and> Equal ex_Execute (Some (ObjString ''ab'')) (Some (ObjString ''ab''))
       (Context 0) Map.empty = Inr (True, Map.empty, [])
   \<and> Equal ex_Execute (Some (ObjNumber 1)) (Some (ObjBool True))
       (Context 0) Map.empty = Inl (RuntimeError ''Cannot compare objects for equality'')"
proof -
  have g: "GetMethod ex_F ''__eq__'' = Some (Method ''__eq__'' [''other''] (ReturnName ''other''))"
    and n: "GetMethod ex_E ''__eq__'' = None"
    by (simp_all add: GetMethod_unfold [of ex_F] GetMethod_unfold [of ex_E] metod_name_to_ptr_def
        ex_F_def ex_E_def)
  then have yes: "HasMethod (ClassInstance 3 ex_F) ''__eq__'' 1"
    and no: "\<not> HasMethod (ClassInstance 6 ex_E) ''__eq__'' 1"
    by (simp_all add: HasMethod_def)
  have call: "Call ex_Execute (ClassInstance 3 ex_F) ''__eq__'' [v] (Context 0) Map.empty
      = Inr (v, Map.empty, [])" for v
    using g yes call_closure_distinct(2) [of "[''other'']" "[v]" "ClassInstance 3 ex_F"]
    by (simp add: Call_def)
  from Equal_rule_order [of ex_Execute "Some (ObjClassInstance (ClassInstance 3 ex_F))"
      "Some (ObjNumber 5)" "Context 0" Map.empty]
    Equal_rule_order [of ex_Execute "Some (ObjClassInstance (ClassInstance 3 ex_F))"
      "Some (ObjNumber 0)" "Context 0" Map.empty]
    Equal_rule_order [of ex_Execute "Some (ObjClassInstance (ClassInstance 6 ex_E))"
      "Some (ObjNumber 0)" "Context 0" Map.empty]
    Equal_rule_order [of ex_Execute "Some (ObjNumber 0)"
      "Some (ObjClassInstance (ClassInstance 3 ex_F))" "Context 0" Map.empty]
    Equal_rule_order [of ex_Execute "Some (ObjString ''ab'')" "Some (ObjString ''ab'')"
      "Context 0" Map.empty]
    Equal_rule_order [of ex_Execute "Some (ObjNumber 1)" "Some (ObjBool True)"
      "Context 0" Map.empty]
    yes no call
  show ?thesis by simp
qed

text \<open>
  C7. \<open>NotEqual\<close> returns the negation of what \<open>Equal\<close> returns and fails when \<open>Equal\<close>
  fails; \<open>GreaterOrEqual\<close> does the same with \<open>Less\<close>. \<open>Greater\<close> calls \<open>Less\<close> and, when
  that returned false, \<open>Equal\<close> (in the state \<open>Less\<close> left): it is true if and only if both
  returned false, and it fails exactly when one of the calls it made fails;
  \<open>LessOrEqual\<close> is its negation, true if and only if \<open>Less\<close> or \<open>Equal\<close> returned true.
\<close>

theorem comparisons_from_Equal_Less:
  "(Equal exec a b c h = Inr (eq, h', ev) \<longrightarrow> NotEqual exec a b c h = Inr (\<not> eq, h', ev))
   \<and> (Equal exec a b c h = Inl e \<longrightarrow> NotEqual exec a b c h = Inl e)
   \<and> (Less exec a b c h = Inr (lt, h', ev) \<longrightarrow> GreaterOrEqual exec a b c h = Inr (\<not> lt, h', ev))
   \<and> (Less exec a b c h = Inl e \<longrightarrow>
        GreaterOrEqual exec a b c h = Inl e \<and> Greater exec a b c h = Inl e
        \<and> LessOrEqual exec a b c h = Inl e)
   \<and> (Less exec a b c h = Inr (True, h1, ev1) \<longrightarrow>
        Greater exec a b c h = Inr (False, h1, ev1) \<and> LessOrEqual exec a b c h = Inr (True, h1, ev1))
   \<and> (Less exec a b c h = Inr (False, h1, ev1) \<and> Equal exec a b c h1 = Inr (eq, h2, ev2) \<longrightarrow>
        Greater exec a b c h = Inr (\<not> eq, h2, ev1 @ ev2)
        \<and> LessOrEqual exec a b c h = Inr (eq, h2, ev1 @ ev2))
   \<and> (Less exec a b c h = Inr (False, h1, ev1) \<and> Equal exec a b c h1 = Inl e \<longrightarrow>
        Greater exec a b c h = Inl e \<and> LessOrEqual exec a b c h = Inl e)"
  by (simp add: NotEqual_def Greater_def LessOrEqual_def GreaterOrEqual_def)

theorem comparisons_from_Equal_Less_witness:
  "NotEqual ex_Execute (Some (ObjNumber 2)) (Some (ObjNumber 1)) (Context 0) Map.empty
     = Inr (True, Map.empty, [])
   \<and> GreaterOrEqual ex_Execute (Some (ObjNumber 2)) (Some (ObjNumber 1)) (Context 0) Map.empty
     = Inr (True, Map.empty, [])
   \<and> Greater ex_Execute (Some (ObjNumber 2)) (Some (ObjNumber 1)) (Context 0) Map.empty
     = Inr (True, Map.empty, [])
   \<and> LessOrEqual ex_Execute (Some (ObjNumber 2)) (Some (ObjNumber 1)) (Context 0) Map.empty
     = Inr (False, Map.empty, [])
   \<and> Greater ex_Execute None None (Context 0) Map.empty
     = Inl (RuntimeError ''Cannot compare objects for less'')"
proof -
  have e: "Equal ex_Execute (Some (ObjNumber 2)) (Some (ObjNumber 1)) (Context 0) Map.empty
      = Inr (False, Map.empty, [])"
    and l: "Less ex_Execute (Some (ObjNumber 2)) (Some (ObjNumber 1)) (Context 0) Map.empty
      = Inr (False, Map.empty, [])"
    and n: "Less ex_Execute None None (Context 0) Map.empty
      = Inl (RuntimeError ''Cannot compare objects for less'')"
    by simp_all
  from comparisons_from_Equal_Less [of ex_Execute "Some (ObjNumber 2)" "Some (ObjNumber 1)" "Context 0"
      Map.empty False Map.empty "[]" _ False Map.empty "[]" Map.empty "[]"] e l
    comparisons_from_Equal_Less [of ex_Execute None None "Context 0" Map.empty _ _ _
      "RuntimeError ''Cannot compare objects for less''"] n
  show ?thesis by simp
qed

subsection \<open>Printing an instance\<close>




section \<open>Properties of the lexer\<close>

subsection \<open>Stream primitives\<close>

lemma consumed_refl [simp]: "consumed s s []"
  by (simp add: consumed_def)

lemma consumed_trans: "consumed s s1 cs \<Longrightarrow> consumed s1 s2 ds \<Longrightarrow> consumed s s2 (cs @ ds)"
  by (simp add: consumed_def)

lemma peek_cases:
  "peek s = (if good s then (case rest s of [] \<Rightarrow> (None, s\<lparr>eofbit := True\<rparr>) | c # _ \<Rightarrow> (Some c, s))
             else (None, s\<lparr>failbit := True\<rparr>))"
  by (simp add: peek_def sentry_def sgetc_def split: list.splits)

lemma get_cases:
  "get s = (if good s
            then (case rest s of
                    [] \<Rightarrow> (None, s\<lparr>eofbit := True, failbit := True\<rparr>)
                  | c # cs \<Rightarrow> (Some c, s\<lparr>rest := cs, prev := c # prev s\<rparr>))
            else (None, s\<lparr>failbit := True\<rparr>))"
  by (simp add: get_def sentry_def sgetc_def sbumpc_def split: list.splits)

lemma peek_Some: "peek s = (Some c, s') \<Longrightarrow> s' = s \<and> good s \<and> (\<exists>cs. rest s = c # cs)"
  by (auto simp: peek_cases split: if_splits list.splits)

lemma peek_None: "peek s = (None, s') \<Longrightarrow> \<not> good s' \<and> rest s' = rest s \<and> prev s' = prev s \<and> badbit s' = badbit s \<and> (good s \<longrightarrow> rest s = [])"
  by (auto simp: peek_cases good_def split: if_splits list.splits)

lemma get_Some:
  "get s = (Some c, s') \<Longrightarrow> good s \<and> good s' \<and> rest s = c # rest s' \<and> prev s' = c # prev s"
  by (auto simp: get_cases good_def split: if_splits list.splits)

lemma get_None: "get s = (None, s') \<Longrightarrow> \<not> good s' \<and> rest s' = rest s \<and> prev s' = prev s \<and> badbit s' = badbit s \<and> (good s \<longrightarrow> rest s = [])"
  by (auto simp: get_cases good_def split: if_splits list.splits)

lemma get_after_peek: "good s \<Longrightarrow> rest s = c # cs \<Longrightarrow> get s = (Some c, s\<lparr>rest := cs, prev := c # prev s\<rparr>)"
  by (simp add: get_cases)

lemma putback_after_get:
  "good s \<Longrightarrow> prev s = c # ps \<Longrightarrow> putback c s = s\<lparr>rest := c # rest s, prev := ps\<rparr>"
  by (cases s) (auto simp: putback_def sentry_def good_def)

lemma putback_not_good:
  "failbit s \<or> badbit s \<Longrightarrow> putback c s = s\<lparr>eofbit := False, failbit := True\<rparr>"
  by (auto simp: putback_def sentry_def good_def)

subsection \<open>The scanning loops on a good stream\<close>

lemma word_loop_explicit:
  "word_loop \<lparr>rest = r, prev = p, eofbit = False, failbit = False, badbit = False\<rparr> w =
     (\<lparr>rest = dropWhile is_word_char r, prev = rev (takeWhile is_word_char r) @ p,
       eofbit = (dropWhile is_word_char r = []), failbit = (dropWhile is_word_char r = []),
       badbit = False\<rparr>,
      w @ takeWhile is_word_char r)"
proof (induction r arbitrary: p w)
  case Nil
  show ?case
    by (subst word_loop.simps)
       (simp add: peek_cases good_def isalpha_int_def isdigit_int_def)
next
  case (Cons c r)
  show ?case
  proof (cases "is_word_char c")
    case True
    then have "isalpha c \<or> isdigit c \<or> c = CHR ''_''"
      by (simp add: is_word_char_def)
    with True show ?thesis
      by (subst word_loop.simps)
         (auto simp: peek_cases get_cases good_def isalpha_int_def isdigit_int_def
                     static_cast_char_def Cons.IH)
  next
    case False
    then have "\<not> isalpha c \<and> \<not> isdigit c \<and> c \<noteq> CHR ''_''"
      by (simp add: is_word_char_def)
    with False show ?thesis
      by (subst word_loop.simps)
         (simp add: peek_cases good_def isalpha_int_def isdigit_int_def)
  qed
qed

lemma num_loop_explicit:
  "num_loop \<lparr>rest = r, prev = p, eofbit = False, failbit = False, badbit = False\<rparr> w =
     (\<lparr>rest = dropWhile isdigit r, prev = rev (takeWhile isdigit r) @ p,
       eofbit = (dropWhile isdigit r = []), failbit = False, badbit = False\<rparr>,
      w @ takeWhile isdigit r)"
proof (induction r arbitrary: p w)
  case Nil
  show ?case
    by (subst num_loop.simps) (simp add: peek_cases good_def isdigit_int_def)
next
  case (Cons c r)
  show ?case
    by (subst num_loop.simps)
       (simp add: peek_cases get_cases good_def isdigit_int_def static_cast_char_def Cons.IH)
qed

lemma spaces_loop_explicit:
  "spaces_loop \<lparr>rest = r, prev = p, eofbit = False, failbit = False, badbit = False\<rparr> n =
     (\<lparr>rest = dropWhile (\<lambda>c. c = CHR '' '') r, prev = rev (takeWhile (\<lambda>c. c = CHR '' '') r) @ p,
       eofbit = (dropWhile (\<lambda>c. c = CHR '' '') r = []), failbit = False, badbit = False\<rparr>,
      n + length (takeWhile (\<lambda>c. c = CHR '' '') r))"
proof (induction r arbitrary: p n)
  case Nil
  show ?case
    by (subst spaces_loop.simps) (simp add: peek_cases good_def fail_def static_cast_char_def)
next
  case (Cons c r)
  show ?case
    by (subst spaces_loop.simps)
       (simp add: peek_cases get_cases good_def fail_def static_cast_char_def Cons.IH)
qed

subsection \<open>Comments\<close>

lemma takeWhile_drop_le:
  "n \<le> length (takeWhile P r) \<Longrightarrow>
   takeWhile P r = take n r @ takeWhile P (drop n r) \<and> dropWhile P (drop n r) = dropWhile P r"
proof (induction r arbitrary: n)
  case Nil
  then show ?case by simp
next
  case (Cons c r)
  then show ?case by (cases n) (auto split: if_splits)
qed

lemma ignore_loop_explicit:
  "ignore_loop n d \<lparr>rest = r, prev = p, eofbit = e, failbit = f, badbit = b\<rparr> =
     (if n \<le> length (takeWhile (\<lambda>c. c \<noteq> d) r)
      then \<lparr>rest = drop n r, prev = rev (take n r) @ p, eofbit = e, failbit = f, badbit = b\<rparr>
      else if dropWhile (\<lambda>c. c \<noteq> d) r = []
      then \<lparr>rest = [], prev = rev r @ p, eofbit = True, failbit = f, badbit = b\<rparr>
      else \<lparr>rest = tl (dropWhile (\<lambda>c. c \<noteq> d) r),
            prev = d # rev (takeWhile (\<lambda>c. c \<noteq> d) r) @ p,
            eofbit = e, failbit = f, badbit = b\<rparr>)"
proof (induction n arbitrary: r p)
  case 0
  show ?case by simp
next
  case (Suc n)
  show ?case
  proof (cases r)
    case Nil
    then show ?thesis by (simp add: sgetc_def)
  next
    case (Cons c r')
    then show ?thesis
      by (auto simp: sgetc_def sbumpc_def Suc.IH)
  qed
qed

text \<open>One round of the loop of \<open>IgnoreComment\<close>: \<open>ignore\<close>, then \<open>unget\<close> unless at the end.\<close>

lemma ignore_unget:
  fixes r p d m
  defines "s \<equiv> \<lparr>rest = r, prev = p, eofbit = False, failbit = False, badbit = False\<rparr>"
  defines "i1 \<equiv> ignore (Suc m) d s"
  shows "(if \<not> eof i1 then unget i1 else i1) =
     (if Suc m \<le> length (takeWhile (\<lambda>c. c \<noteq> d) r)
      then \<lparr>rest = drop m r, prev = rev (take m r) @ p, eofbit = False, failbit = False, badbit = False\<rparr>
      else if dropWhile (\<lambda>c. c \<noteq> d) r = []
      then \<lparr>rest = [], prev = rev r @ p, eofbit = True, failbit = False, badbit = False\<rparr>
      else \<lparr>rest = dropWhile (\<lambda>c. c \<noteq> d) r, prev = rev (takeWhile (\<lambda>c. c \<noteq> d) r) @ p,
            eofbit = False, failbit = False, badbit = False\<rparr>)"
proof -
  have i1: "i1 = ignore_loop (Suc m) d s"
    by (simp add: i1_def ignore_def sentry_def good_def s_def)
  show ?thesis
  proof (cases "Suc m \<le> length (takeWhile (\<lambda>c. c \<noteq> d) r)")
    case True
    then have m: "m < length r"
      using length_takeWhile_le [of "\<lambda>c. c \<noteq> d" r] by linarith
    then have "take (Suc m) r = take m r @ [r ! m]" and "drop m r = r ! m # drop (Suc m) r"
      by (simp_all add: take_Suc_conv_app_nth Cons_nth_drop_Suc)
    with True show ?thesis
      unfolding i1 s_def ignore_loop_explicit
      by (simp add: eof_def unget_def sentry_def good_def)
  next
    case False
    show ?thesis
    proof (cases "dropWhile (\<lambda>c. c \<noteq> d) r = []")
      case True
      with False show ?thesis
        unfolding i1 s_def ignore_loop_explicit by (simp add: eof_def)
    next
      case nonempty: False
      then have "hd (dropWhile (\<lambda>c. c \<noteq> d) r) = d"
        using hd_dropWhile [of "\<lambda>c. c \<noteq> d" r] by simp
      with nonempty have "d # tl (dropWhile (\<lambda>c. c \<noteq> d) r) = dropWhile (\<lambda>c. c \<noteq> d) r"
        by (metis list.collapse)
      with False nonempty show ?thesis
        unfolding i1 s_def ignore_loop_explicit
        by (simp add: eof_def unget_def sentry_def good_def)
    qed
  qed
qed

lemma IgnoreComment_explicit:
  "IgnoreComment \<lparr>rest = r, prev = p, eofbit = False, failbit = False, badbit = False\<rparr> =
     Some \<lparr>rest = dropWhile (\<lambda>c. c \<noteq> CHR 0x0A) r,
           prev = rev (takeWhile (\<lambda>c. c \<noteq> CHR 0x0A) r) @ p,
           eofbit = (dropWhile (\<lambda>c. c \<noteq> CHR 0x0A) r = []),
           failbit = (dropWhile (\<lambda>c. c \<noteq> CHR 0x0A) r = []), badbit = False\<rparr>"
proof (induction "length r" arbitrary: r p rule: less_induct)
  case less
  let ?P = "\<lambda>c. c \<noteq> CHR 0x0A"
  have n: "(1024::nat) = Suc 1023" by simp
  note round = ignore_unget [of 1023 "CHR 0x0A" r p, folded n]
  show ?case
  proof (cases "1024 \<le> length (takeWhile ?P r)")
    case True
    then have len: "1023 < length (takeWhile ?P r)" by simp
    then have "1023 < length r"
      using length_takeWhile_le [of ?P r] by linarith
    then have dr: "drop 1023 r = r ! 1023 # drop 1024 r"
      using Cons_nth_drop_Suc [of 1023 r] by simp
    have "r ! 1023 = takeWhile ?P r ! 1023"
      using len by (simp add: takeWhile_nth)
    moreover have "takeWhile ?P r ! 1023 \<in> set (takeWhile ?P r)"
      using len by simp
    ultimately have ne: "r ! 1023 \<noteq> CHR 0x0A"
      using set_takeWhileD by metis
    have td: "takeWhile ?P r = take 1023 r @ takeWhile ?P (drop 1023 r)"
      "dropWhile ?P (drop 1023 r) = dropWhile ?P r"
      using takeWhile_drop_le [of 1023 ?P r] len by simp_all
    have "length (drop 1023 r) < length r"
      using \<open>1023 < length r\<close> by simp
    from less [OF this, of "rev (take 1023 r) @ p"]
    have IH: "IgnoreComment \<lparr>rest = drop 1023 r, prev = rev (take 1023 r) @ p, eofbit = False,
          failbit = False, badbit = False\<rparr> =
        Some \<lparr>rest = dropWhile ?P r, prev = rev (takeWhile ?P r) @ p,
           eofbit = (dropWhile ?P r = []), failbit = (dropWhile ?P r = []), badbit = False\<rparr>"
      by (simp add: td(2)) (simp add: td(1))
    show ?thesis
      apply (subst IgnoreComment.simps)
      apply (simp only: Let_def round)
      using True ne dr IH
      apply (simp add: peek_cases good_def eof_def)
      done
  next
    case False
    show ?thesis
    proof (cases "dropWhile ?P r = []")
      case True
      then have "takeWhile ?P r = r"
        by (metis append_Nil2 takeWhile_dropWhile_id)
      with True False show ?thesis
        apply (subst IgnoreComment.simps)
        apply (simp only: Let_def round)
        apply (simp add: peek_cases good_def eof_def)
        done
    next
      case nonempty: False
      then have "hd (dropWhile ?P r) = CHR 0x0A"
        using hd_dropWhile [of ?P r] by simp
      with nonempty obtain t where "dropWhile ?P r = CHR 0x0A # t"
        by (cases "dropWhile ?P r") auto
      with False show ?thesis
        apply (subst IgnoreComment.simps)
        apply (simp only: Let_def round)
        apply (simp add: peek_cases good_def eof_def)
        done
    qed
  qed
qed

subsection \<open>String literals\<close>

lemma string_loop_unfold:
  "string_loop d \<lparr>rest = r, prev = p, eofbit = e, failbit = f, badbit = b\<rparr> acc =
     (case r of
        [] \<Rightarrow> Inl (ParsingError ''String parsing error'')
      | ch # r1 \<Rightarrow>
          if ch = d then Inr (\<lparr>rest = r1, prev = ch # p, eofbit = e, failbit = f, badbit = b\<rparr>, acc)
          else if ch = CHR 0x5C
          then (case r1 of
                  [] \<Rightarrow> Inl (ParsingError ''String parsing error'')
                | esc # r2 \<Rightarrow>
                    (case escaped esc of
                       Some c \<Rightarrow>
                         string_loop d \<lparr>rest = r2, prev = esc # ch # p, eofbit = e, failbit = f,
                                          badbit = b\<rparr> (acc @ [c])
                     | None \<Rightarrow>
                         Inl (ParsingError (''Unrecognized escape sequence '' @ [CHR 0x5C, esc]))))
          else if ch = CHR 0x0A \<or> ch = CHR 0x0D then Inl (ParsingError ''Unexpected end of line'')
          else string_loop d \<lparr>rest = r1, prev = ch # p, eofbit = e, failbit = f, badbit = b\<rparr>
                 (acc @ [ch]))"
  by (subst string_loop.simps) (simp add: sgetc_def sbumpc_def split: list.splits option.splits)

lemma escaped_not_newline: "escaped c = Some x \<Longrightarrow> c \<noteq> CHR 0x0A"
  by (auto simp: escaped_def split: if_splits)

lemma string_loop_Inr:
  "d \<noteq> CHR 0x0A \<Longrightarrow>
   string_loop d \<lparr>rest = r, prev = p, eofbit = e, failbit = f, badbit = b\<rparr> acc = Inr (s', str) \<Longrightarrow>
   \<exists>cs. cs \<noteq> [] \<and> CHR 0x0A \<notin> set cs \<and> r = cs @ rest s' \<and> prev s' = rev cs @ p
      \<and> eofbit s' = e \<and> failbit s' = f \<and> badbit s' = b"
proof (induction "length r" arbitrary: r p acc rule: less_induct)
  case less
  note eq = less.prems(2) [unfolded string_loop_unfold [of d r]]
  show ?case
  proof (cases r)
    case Nil
    with eq show ?thesis by simp
  next
    case (Cons ch r1)
    show ?thesis
    proof (cases "ch = d")
      case True
      with eq Cons less.prems(1) show ?thesis
        by (intro exI [of _ "[ch]"]) auto
    next
      case nd: False
      show ?thesis
      proof (cases "ch = CHR 0x5C")
        case True
        with eq Cons nd obtain esc r2 c where r1: "r1 = esc # r2" and esc: "escaped esc = Some c"
          and rec: "string_loop d \<lparr>rest = r2, prev = esc # ch # p, eofbit = e, failbit = f,
                                    badbit = b\<rparr> (acc @ [c]) = Inr (s', str)"
          by (auto split: list.splits option.splits)
        have "length r2 < length r" using Cons r1 by simp
        from less.hyps [OF this less.prems(1) rec] obtain cs where
          cs: "CHR 0x0A \<notin> set cs" "r2 = cs @ rest s'" "prev s' = rev cs @ esc # ch # p"
            "eofbit s' = e" "failbit s' = f" "badbit s' = b"
          by blast
        with Cons r1 True escaped_not_newline [OF esc] show ?thesis
          by (intro exI [of _ "ch # esc # cs"]) auto
      next
        case nb: False
        with eq Cons nd have nl: "ch \<noteq> CHR 0x0A"
          and rec: "string_loop d \<lparr>rest = r1, prev = ch # p, eofbit = e, failbit = f,
                                    badbit = b\<rparr> (acc @ [ch]) = Inr (s', str)"
          by (auto split: if_splits)
        have "length r1 < length r" using Cons by simp
        from less.hyps [OF this less.prems(1) rec] obtain cs where
          cs: "CHR 0x0A \<notin> set cs" "r1 = cs @ rest s'" "prev s' = rev cs @ ch # p"
            "eofbit s' = e" "failbit s' = f" "badbit s' = b"
          by blast
        with Cons nl show ?thesis
          by (intro exI [of _ "ch # cs"]) auto
      qed
    qed
  qed
qed

subsection \<open>One step of the main loop\<close>

lemma ProcessIndent_explicit:
  "ProcessIndent \<lparr>rest = r, prev = p, eofbit = False, failbit = False, badbit = False\<rparr> lx =
     (\<lparr>rest = dropWhile (\<lambda>c. c = CHR '' '') r, prev = rev (takeWhile (\<lambda>c. c = CHR '' '') r) @ p,
       eofbit = (dropWhile (\<lambda>c. c = CHR '' '') r = []),
       failbit = (dropWhile (\<lambda>c. c = CHR '' '') r = []), badbit = False\<rparr>,
      if take 1 (dropWhile (\<lambda>c. c = CHR '' '') r) = [CHR 0x0A] then lx
      else set_indent (length (takeWhile (\<lambda>c. c = CHR '' '') r) div 2) lx)"
proof -
  define a where "a = takeWhile (\<lambda>c. c = CHR '' '') r"
  define b where "b = dropWhile (\<lambda>c. c = CHR '' '') r"
  have sl: "spaces_loop \<lparr>rest = r, prev = p, eofbit = False, failbit = False, badbit = False\<rparr> 0 =
      (\<lparr>rest = b, prev = rev a @ p, eofbit = (b = []), failbit = False, badbit = False\<rparr>, length a)"
    by (simp add: spaces_loop_explicit a_def b_def)
  have "ProcessIndent \<lparr>rest = r, prev = p, eofbit = False, failbit = False, badbit = False\<rparr> lx =
     (\<lparr>rest = b, prev = rev a @ p, eofbit = (b = []), failbit = (b = []), badbit = False\<rparr>,
      if take 1 b = [CHR 0x0A] then lx else set_indent (length a div 2) lx)"
    unfolding ProcessIndent_def sl
    by (cases b) (auto simp: peek_cases good_def set_indent_def Let_def)
  then show ?thesis by (simp only: a_def b_def)
qed

lemma keyword_plain:
  "IsKeyWord word \<Longrightarrow> \<exists>t. map_of KEYWORD_TO_TOKEN word = Some t \<and> plain t"
  by (auto simp: IsKeyWord_def USING_KEYWORDS_def KEYWORD_TO_TOKEN_def plain_def)

lemma ProcessWord_explicit:
  "\<exists>t. plain t \<and>
     ProcessWord \<lparr>rest = r, prev = p, eofbit = False, failbit = False, badbit = False\<rparr> lx =
     (\<lparr>rest = dropWhile is_word_char r, prev = rev (takeWhile is_word_char r) @ p,
       eofbit = (dropWhile is_word_char r = []), failbit = (dropWhile is_word_char r = []),
       badbit = False\<rparr>,
      push_back t lx)"
proof (cases "IsKeyWord (takeWhile is_word_char r)")
  case True
  from keyword_plain [OF this] obtain t where
    "map_of KEYWORD_TO_TOKEN (takeWhile is_word_char r) = Some t" "plain t" by blast
  with True show ?thesis
    by (intro exI [of _ t]) (simp add: ProcessWord_def word_loop_explicit ProcessKeyWord_def)
next
  case False
  then show ?thesis
    by (intro exI [of _ "T_Id (takeWhile is_word_char r)"])
       (simp add: ProcessWord_def word_loop_explicit plain_def)
qed

lemma ProcessNum_explicit:
  "ProcessNum \<lparr>rest = r, prev = p, eofbit = False, failbit = False, badbit = False\<rparr> lx =
     (case stoi (takeWhile isdigit r) of
        Inl e \<Rightarrow> Inl e
      | Inr result \<Rightarrow>
          Inr (\<lparr>rest = dropWhile isdigit r, prev = rev (takeWhile isdigit r) @ p,
                eofbit = (dropWhile isdigit r = []), failbit = False, badbit = False\<rparr>,
               push_back (T_Number result) lx))"
  by (simp add: ProcessNum_def num_loop_explicit split: sum.splits)

lemma takeWhile_eq_replicate:
  "takeWhile (\<lambda>c. c = x) r = replicate (length (takeWhile (\<lambda>c. c = x) r)) x"
  by (induction r) auto

lemma take1_dropWhile: "take 1 (dropWhile P r) \<noteq> [x] \<or> \<not> P x"
  by (induction r) auto

lemma step_eof:
  "ProcessNextToken (gs [] p) lx =
     Some (Inr (\<lparr>rest = [], prev = p, eofbit = True, failbit = True, badbit = False\<rparr>, lx))"
  by (simp add: ProcessNextToken_def get_cases good_def static_cast_char_def isalpha_def
        isdigit_def ispunct_def)

lemma step_newline:
  "ProcessNextToken (gs (CHR 0x0A # r) p) lx =
     Some (Inr (ProcessIndent (gs r (CHR 0x0A # p)) (ProcessNextLine lx)))"
  by (simp add: ProcessNextToken_def get_cases good_def static_cast_char_def)

lemma putback_gs: "putback c (gs r (c # p)) = gs (c # r) p"
  by (simp add: putback_def sentry_def good_def)

lemma isalpha_chars:
  "isalpha c \<Longrightarrow> c \<noteq> CHR 0x0A \<and> c \<noteq> CHR 0x22 \<and> c \<noteq> CHR 0x27 \<and> c \<noteq> CHR ''#'' \<and> c \<noteq> CHR '' ''"
  by (auto simp: isalpha_def)

lemma isdigit_chars:
  "isdigit c \<Longrightarrow> c \<noteq> CHR 0x0A \<and> c \<noteq> CHR 0x22 \<and> c \<noteq> CHR 0x27 \<and> c \<noteq> CHR ''#'' \<and> c \<noteq> CHR ''_''
     \<and> c \<noteq> CHR '' '' \<and> \<not> isalpha c"
  by (auto simp: isdigit_def isalpha_def Let_def)

lemma ispunct_chars:
  "ispunct c \<Longrightarrow> c \<noteq> CHR 0x0A \<and> c \<noteq> CHR '' '' \<and> \<not> isalpha c \<and> \<not> isdigit c"
  by (auto simp: ispunct_def isdigit_def isalpha_def Let_def)

lemma step_string:
  "c = CHR 0x22 \<or> c = CHR 0x27 \<Longrightarrow>
   ProcessNextToken (gs (c # r) p) lx =
     Some (case string_loop c (gs r (c # p)) [] of
             Inl e \<Rightarrow> Inl e
           | Inr (i2, str) \<Rightarrow> Inr (i2, push_back (T_String str) lx))"
  by (auto simp: ProcessNextToken_def get_cases good_def static_cast_char_def putback_gs
        ProcessString_def)

lemma step_word:
  "c = CHR ''_'' \<or> isalpha c \<Longrightarrow>
   ProcessNextToken (gs (c # r) p) lx = Some (Inr (ProcessWord (gs (c # r) p) lx))"
  using isalpha_chars [of c]
  by (auto simp: ProcessNextToken_def get_cases good_def static_cast_char_def putback_gs)

lemma step_num:
  "isdigit c \<Longrightarrow>
   ProcessNextToken (gs (c # r) p) lx = Some (ProcessNum (gs (c # r) p) lx)"
  using isdigit_chars [of c]
  by (auto simp: ProcessNextToken_def get_cases good_def static_cast_char_def putback_gs)

lemma step_comment:
  "ProcessNextToken (gs (CHR ''#'' # r) p) lx =
     Some (Inr (\<lparr>rest = dropWhile (\<lambda>c. c \<noteq> CHR 0x0A) r,
                 prev = rev (takeWhile (\<lambda>c. c \<noteq> CHR 0x0A) r) @ CHR ''#'' # p,
                 eofbit = (dropWhile (\<lambda>c. c \<noteq> CHR 0x0A) r = []),
                 failbit = (dropWhile (\<lambda>c. c \<noteq> CHR 0x0A) r = []), badbit = False\<rparr>, lx))"
  by (simp add: ProcessNextToken_def get_cases good_def static_cast_char_def
        isalpha_def isdigit_def IgnoreComment_explicit)

lemma not_comparison_eof: "\<not> IsComparisonOperator c (CHR 0xFF)"
  by (simp add: IsComparisonOperator_def)

lemma step_punct_end:
  "ispunct c \<Longrightarrow> c \<noteq> CHR 0x22 \<Longrightarrow> c \<noteq> CHR 0x27 \<Longrightarrow> c \<noteq> CHR ''_'' \<Longrightarrow> c \<noteq> CHR ''#'' \<Longrightarrow>
   ProcessNextToken (gs [c] p) lx =
     Some (Inr (\<lparr>rest = [], prev = c # p, eofbit = False, failbit = True, badbit = False\<rparr>,
                push_back (T_Char c) lx))"
  using ispunct_chars [of c]
  by (simp add: ProcessNextToken_def get_cases good_def static_cast_char_def
        not_comparison_eof putback_def sentry_def ProcessSymbol_def)

lemma step_punct_comparison:
  "ispunct c \<Longrightarrow> c \<noteq> CHR 0x22 \<Longrightarrow> c \<noteq> CHR 0x27 \<Longrightarrow> c \<noteq> CHR ''_'' \<Longrightarrow> c \<noteq> CHR ''#'' \<Longrightarrow>
   IsComparisonOperator c d \<Longrightarrow>
   ProcessNextToken (gs (c # d # r) p) lx =
     Some (Inr (gs r (d # c # p), ProcessComparisonOperator c d lx))"
  using ispunct_chars [of c]
  by (simp add: ProcessNextToken_def get_cases good_def static_cast_char_def)

lemma step_punct_symbol:
  "ispunct c \<Longrightarrow> c \<noteq> CHR 0x22 \<Longrightarrow> c \<noteq> CHR 0x27 \<Longrightarrow> c \<noteq> CHR ''_'' \<Longrightarrow> c \<noteq> CHR ''#'' \<Longrightarrow>
   \<not> IsComparisonOperator c d \<Longrightarrow>
   ProcessNextToken (gs (c # d # r) p) lx =
     Some (Inr (gs (d # r) (c # p), push_back (T_Char c) lx))"
  using ispunct_chars [of c]
  by (simp add: ProcessNextToken_def get_cases good_def static_cast_char_def putback_gs
        ProcessSymbol_def)

lemma step_other:
  "c \<noteq> CHR 0x0A \<Longrightarrow> c \<noteq> CHR 0x22 \<Longrightarrow> c \<noteq> CHR 0x27 \<Longrightarrow> c \<noteq> CHR ''_'' \<Longrightarrow> \<not> isalpha c \<Longrightarrow>
   \<not> isdigit c \<Longrightarrow> c \<noteq> CHR ''#'' \<Longrightarrow> \<not> ispunct c \<Longrightarrow>
   ProcessNextToken (gs (c # r) p) lx = Some (Inr (gs r (c # p), lx))"
  by (simp add: ProcessNextToken_def get_cases good_def static_cast_char_def)

lemma IsComparisonOperator_cases:
  "IsComparisonOperator c d \<Longrightarrow>
   d = CHR ''='' \<and> (c = CHR ''>'' \<or> c = CHR ''='' \<or> c = CHR ''<'' \<or> c = CHR ''!'')"
  unfolding IsComparisonOperator_def Let_def by simp blast

lemma comparison_plain:
  assumes "IsComparisonOperator c d"
  shows "d \<noteq> CHR 0x0A \<and> (\<exists>t. plain t \<and> ProcessComparisonOperator c d lx = push_back t lx)"
proof -
  from IsComparisonOperator_cases [OF assms] have d: "d = CHR ''=''"
    and c: "c = CHR ''>'' \<or> c = CHR ''='' \<or> c = CHR ''<'' \<or> c = CHR ''!''" by simp_all
  from c have "\<exists>t. plain t \<and> ProcessComparisonOperator c d lx = push_back t lx"
  proof (elim disjE)
    assume "c = CHR ''>''"
    then show ?thesis unfolding d
      by (intro exI [of _ T_GreaterOrEq]) (simp add: ProcessComparisonOperator_def plain_def)
  next
    assume "c = CHR ''=''"
    then show ?thesis unfolding d
      by (intro exI [of _ T_Eq]) (simp add: ProcessComparisonOperator_def plain_def)
  next
    assume "c = CHR ''<''"
    then show ?thesis unfolding d
      by (intro exI [of _ T_LessOrEq]) (simp add: ProcessComparisonOperator_def plain_def)
  next
    assume "c = CHR ''!''"
    then show ?thesis unfolding d
      by (intro exI [of _ T_NotEq]) (simp add: ProcessComparisonOperator_def plain_def)
  qed
  with d show ?thesis by simp
qed

lemma not_word_char_newline: "\<not> is_word_char (CHR 0x0A)"
  by (simp add: is_word_char_def isalpha_def isdigit_def)

lemma not_isdigit_newline: "\<not> isdigit (CHR 0x0A)"
  by (simp add: isdigit_def)

lemma step_okI:
  "stream_ok s' \<Longrightarrow> r = cs @ rest s' \<Longrightarrow> prev s' = rev cs @ p \<Longrightarrow> cs \<noteq> [] \<Longrightarrow> CHR 0x0A \<notin> set cs \<Longrightarrow>
   lx' = lx \<or> (\<exists>t. plain t \<and> lx' = push_back t lx) \<Longrightarrow> step_ok (gs r p) lx s' lx'"
  unfolding step_ok_def consumed_def by auto

lemma step_okI_newline:
  "stream_ok s' \<Longrightarrow> r = CHR 0x0A # replicate n (CHR '' '') @ rest s' \<Longrightarrow>
   prev s' = replicate n (CHR '' '') @ CHR 0x0A # p \<Longrightarrow> take 1 (rest s') \<noteq> '' '' \<Longrightarrow>
   lx' = (if take 1 (rest s') = [CHR 0x0A] then ProcessNextLine lx
          else set_indent (n div 2) (ProcessNextLine lx)) \<Longrightarrow>
   step_ok (gs r p) lx s' lx'"
  unfolding step_ok_def consumed_def by (intro conjI disjI2 disjI1 exI [of _ n]; simp)

lemma stepI:
  "step_ok s lx s1 lx1 \<Longrightarrow>
   \<exists>res. Some (Inr (s1, lx1)) = Some res \<and> (\<forall>s' lx'. res = Inr (s', lx') \<longrightarrow> step_ok s lx s' lx')"
  by simp

lemma takeWhile_no_newline: "\<not> P (CHR 0x0A) \<Longrightarrow> CHR 0x0A \<notin> set (takeWhile P r)"
  by (auto dest: set_takeWhileD)

lemma ProcessNextToken_step:
  "\<exists>res. ProcessNextToken (gs r p) lx = Some res
     \<and> (\<forall>s' lx'. res = Inr (s', lx') \<longrightarrow> step_ok (gs r p) lx s' lx')"
proof (cases r)
  case Nil
  show ?thesis
    unfolding Nil step_eof by (simp add: step_ok_def stream_ok_def good_def)
next
  case (Cons c r')
  consider (nl) "c = CHR 0x0A" | (str) "c = CHR 0x22 \<or> c = CHR 0x27"
    | (word) "c = CHR ''_'' \<or> isalpha c"
    | (num) "isdigit c" | (comment) "c = CHR ''#''"
    | (punct) "ispunct c" "c \<noteq> CHR 0x22" "c \<noteq> CHR 0x27" "c \<noteq> CHR ''_''" "c \<noteq> CHR ''#''"
    | (other) "c \<noteq> CHR 0x0A" "c \<noteq> CHR 0x22" "c \<noteq> CHR 0x27" "c \<noteq> CHR ''_''" "\<not> isalpha c"
        "\<not> isdigit c" "c \<noteq> CHR ''#''" "\<not> ispunct c"
    by blast
  then show ?thesis
  proof cases
    case nl
    define a where "a = takeWhile (\<lambda>c. c = CHR '' '') r'"
    define b where "b = dropWhile (\<lambda>c. c = CHR '' '') r'"
    have ab: "r' = a @ b" by (simp add: a_def b_def)
    have "\<exists>n. a = replicate n (CHR '' '')"
      unfolding a_def
      by (rule exI [of _ "length (takeWhile (\<lambda>c. c = CHR '' '') r')"])
         (rule takeWhile_eq_replicate)
    then obtain n where n: "a = replicate n (CHR '' '')" ..
    have b: "take 1 b \<noteq> '' ''"
      using take1_dropWhile [of "\<lambda>c. c = CHR '' ''" r' "CHR '' ''"] by (simp add: b_def)
    have "step_ok (gs (CHR 0x0A # r') p) lx
        \<lparr>rest = b, prev = rev a @ CHR 0x0A # p, eofbit = (b = []), failbit = (b = []), badbit = False\<rparr>
        (if take 1 b = [CHR 0x0A] then ProcessNextLine lx
         else set_indent (length a div 2) (ProcessNextLine lx))"
      using b unfolding ab n
      by (intro step_okI_newline [where n = n])
         (simp_all add: stream_ok_def good_def)
    then show ?thesis
      unfolding Cons nl step_newline ProcessIndent_explicit a_def b_def
      by (rule stepI)
  next
    case str
    have "c \<noteq> CHR 0x0A" using str by auto
    show ?thesis
    proof (cases "string_loop c (gs r' (c # p)) []")
      case (Inl e)
      then show ?thesis
        unfolding Cons step_string [OF str] by simp
    next
      case (Inr res)
      obtain i2 sl where res: "res = (i2, sl)" by (cases res)
      from string_loop_Inr [OF \<open>c \<noteq> CHR 0x0A\<close> Inr [unfolded res]]
      obtain cs where cs: "CHR 0x0A \<notin> set cs" "r' = cs @ rest i2" "prev i2 = rev cs @ c # p"
        "eofbit i2 = False" "failbit i2 = False" "badbit i2 = False"
        by blast
      have "step_ok (gs (c # r') p) lx i2 (push_back (T_String sl) lx)"
        using cs \<open>c \<noteq> CHR 0x0A\<close>
        by (intro step_okI [where cs = "c # cs"])
           (auto simp: stream_ok_def good_def plain_def)
      then show ?thesis
        unfolding Cons step_string [OF str] Inr res by simp
    qed
  next
    case word
    then have wc: "is_word_char c" by (auto simp: is_word_char_def)
    obtain t where t: "plain t" "ProcessWord (gs (c # r') p) lx =
      (\<lparr>rest = dropWhile is_word_char (c # r'), prev = rev (takeWhile is_word_char (c # r')) @ p,
        eofbit = (dropWhile is_word_char (c # r') = []), failbit = (dropWhile is_word_char (c # r') = []),
        badbit = False\<rparr>, push_back t lx)"
      using ProcessWord_explicit [of "c # r'" p lx] by blast
    have "step_ok (gs (c # r') p) lx (fst (ProcessWord (gs (c # r') p) lx))
        (snd (ProcessWord (gs (c # r') p) lx))"
      unfolding t(2) fst_conv snd_conv
      using t(1) wc takeWhile_no_newline [of is_word_char "c # r'", OF not_word_char_newline]
      by (intro step_okI [where cs = "takeWhile is_word_char (c # r')"])
         (auto simp: stream_ok_def good_def)
    then show ?thesis
      unfolding Cons step_word [OF word] by (cases "ProcessWord (gs (c # r') p) lx") simp
  next
    case num
    show ?thesis
    proof (cases "stoi (takeWhile isdigit (c # r'))")
      case (Inl e)
      then show ?thesis
        unfolding Cons step_num [OF num] ProcessNum_explicit by simp
    next
      case (Inr v)
      have "step_ok (gs (c # r') p) lx
          \<lparr>rest = dropWhile isdigit (c # r'), prev = rev (takeWhile isdigit (c # r')) @ p,
            eofbit = (dropWhile isdigit (c # r') = []), failbit = False, badbit = False\<rparr>
          (push_back (T_Number v) lx)"
        using num takeWhile_no_newline [of isdigit "c # r'", OF not_isdigit_newline]
        by (intro step_okI [where cs = "takeWhile isdigit (c # r')"])
           (auto simp: stream_ok_def good_def plain_def)
      then show ?thesis
        unfolding Cons step_num [OF num] ProcessNum_explicit Inr by simp
    qed
  next
    case comment
    have "step_ok (gs (CHR ''#'' # r') p) lx
        \<lparr>rest = dropWhile (\<lambda>c. c \<noteq> CHR 0x0A) r',
          prev = rev (takeWhile (\<lambda>c. c \<noteq> CHR 0x0A) r') @ CHR ''#'' # p,
          eofbit = (dropWhile (\<lambda>c. c \<noteq> CHR 0x0A) r' = []),
          failbit = (dropWhile (\<lambda>c. c \<noteq> CHR 0x0A) r' = []), badbit = False\<rparr> lx"
      using takeWhile_no_newline [of "\<lambda>c. c \<noteq> CHR 0x0A" r']
      by (intro step_okI [where cs = "CHR ''#'' # takeWhile (\<lambda>c. c \<noteq> CHR 0x0A) r'"])
         (auto simp: stream_ok_def good_def)
    then show ?thesis
      unfolding Cons comment step_comment by simp
  next
    case punct
    have cn: "c \<noteq> CHR 0x0A" using ispunct_chars [OF punct(1)] by simp
    show ?thesis
    proof (cases r')
      case Nil
      have "step_ok (gs [c] p) lx
          \<lparr>rest = [], prev = c # p, eofbit = False, failbit = True, badbit = False\<rparr>
          (push_back (T_Char c) lx)"
        using cn
        by (intro step_okI [where cs = "[c]"]) (auto simp: stream_ok_def good_def plain_def)
      then show ?thesis
        unfolding \<open>r = c # r'\<close> Nil step_punct_end [OF punct] by simp
    next
      case (Cons d r'')
      show ?thesis
      proof (cases "IsComparisonOperator c d")
        case True
        from comparison_plain [OF True, of lx] obtain t where
          t: "d \<noteq> CHR 0x0A" "plain t" "ProcessComparisonOperator c d lx = push_back t lx"
          by blast
        have "step_ok (gs (c # d # r'') p) lx (gs r'' (d # c # p)) (push_back t lx)"
          using cn t
          by (intro step_okI [where cs = "[c, d]"]) (auto simp: stream_ok_def good_def)
        then show ?thesis
          unfolding \<open>r = c # r'\<close> Cons step_punct_comparison [OF punct True] t(3) by simp
      next
        case False
        have "step_ok (gs (c # d # r'') p) lx (gs (d # r'') (c # p)) (push_back (T_Char c) lx)"
          using cn
          by (intro step_okI [where cs = "[c]"]) (auto simp: stream_ok_def good_def plain_def)
        then show ?thesis
          unfolding \<open>r = c # r'\<close> Cons step_punct_symbol [OF punct False] by simp
      qed
    qed
  next
    case other
    have "step_ok (gs (c # r') p) lx (gs r' (c # p)) lx"
      using other(1)
      by (intro step_okI [where cs = "[c]"]) (auto simp: stream_ok_def good_def)
    then show ?thesis
      unfolding Cons step_other [OF other] by simp
  qed
qed

lemma good_gs: "good s \<Longrightarrow> s = gs (rest s) (prev s)"
  by (cases s) (simp add: good_def)

lemma step_ok_measure:
  "good s \<Longrightarrow> step_ok s lx s' lx' \<Longrightarrow>
   length (rest s') + (if good s' then 1 else 0) < length (rest s) + (if good s then 1 else 0)"
  by (auto simp: step_ok_def consumed_def)

lemma token_loop_invariant:
  assumes init: "I s lx" "stream_ok s"
    and step: "\<And>s lx s' lx'. I s lx \<Longrightarrow> good s \<Longrightarrow> step_ok s lx s' lx' \<Longrightarrow> I s' lx'"
  shows "\<exists>res. token_loop s lx = Some res
     \<and> (\<forall>s' lx'. res = Inr (s', lx') \<longrightarrow> I s' lx' \<and> \<not> good s' \<and> stream_ok s')"
  using init
proof (induction "length (rest s) + (if good s then 1 else 0 :: nat)" arbitrary: s lx rule: less_induct)
  case less
  show ?case
  proof (cases "good s")
    case False
    with less.prems show ?thesis
      by (subst token_loop.simps) simp
  next
    case True
    from ProcessNextToken_step [of "rest s" "prev s" lx] good_gs [OF True]
    obtain res where res: "ProcessNextToken s lx = Some res"
      "\<forall>s' lx'. res = Inr (s', lx') \<longrightarrow> step_ok s lx s' lx'"
      by metis
    show ?thesis
    proof (cases res)
      case (Inl e)
      with res True show ?thesis
        by (subst token_loop.simps) simp
    next
      case (Inr sl)
      obtain s1 lx1 where sl: "sl = (s1, lx1)" by (cases sl)
      with res Inr have ok: "step_ok s lx s1 lx1" by simp
      have I1: "I s1 lx1" by (rule step [OF less.prems(1) True ok])
      have s1: "stream_ok s1" using ok by (simp add: step_ok_def)
      from less.hyps [OF step_ok_measure [OF True ok] I1 s1]
      have "\<exists>res. token_loop s1 lx1 = Some res
         \<and> (\<forall>s' lx'. res = Inr (s', lx') \<longrightarrow> I s' lx' \<and> \<not> good s' \<and> stream_ok s')" .
      moreover have "token_loop s lx = token_loop s1 lx1"
        using True res Inr sl by (subst token_loop.simps) simp
      ultimately show ?thesis by simp
    qed
  qed
qed

subsection \<open>Invariants of the token buffer\<close>

lemma count_list_replicate [simp]: "count_list (replicate n x) y = (if x = y then n else 0)"
  by (induction n) auto

lemma bal_push_back:
  "bal lx \<Longrightarrow> t \<noteq> T_Indent \<Longrightarrow> t \<noteq> T_Dedent \<Longrightarrow> bal (push_back t lx)"
proof -
  assume b: "bal lx" and t: "t \<noteq> T_Indent" "t \<noteq> T_Dedent"
  have "count_list (take n (tokens lx @ [t])) T_Dedent \<le> count_list (take n (tokens lx @ [t])) T_Indent"
    for n
  proof (cases "n \<le> length (tokens lx)")
    case True
    then show ?thesis using b by (simp add: bal_def)
  next
    case False
    then have "take n (tokens lx @ [t]) = tokens lx @ [t]" by simp
    moreover have "count_list (tokens lx) T_Dedent \<le> count_list (tokens lx) T_Indent"
      using b by (simp add: bal_def)
    ultimately show ?thesis using t by simp
  qed
  then show ?thesis using b t by (simp add: bal_def push_back_def)
qed

lemma bal_ProcessNextLine: "bal lx \<Longrightarrow> bal (ProcessNextLine lx)"
  by (simp add: ProcessNextLine_def bal_push_back)

lemma bal_set_indent: "bal lx \<Longrightarrow> bal (set_indent k lx)"
proof -
  assume b: "bal lx"
  have le: "count_list (take n (tokens lx)) T_Dedent \<le> count_list (take n (tokens lx)) T_Indent" for n
    using b by (simp add: bal_def)
  have tot: "count_list (tokens lx) T_Indent = count_list (tokens lx) T_Dedent + prev_indent lx"
    using b by (simp add: bal_def)
  consider (up) "k > prev_indent lx" | (down) "k < prev_indent lx" | (same) "k = prev_indent lx"
    by linarith
  then show ?thesis
  proof cases
    case up
    have "count_list (take n (tokens lx @ replicate (k - prev_indent lx) T_Indent)) T_Dedent
        \<le> count_list (take n (tokens lx @ replicate (k - prev_indent lx) T_Indent)) T_Indent" for n
      using le [of n] by simp
    then show ?thesis using up tot by (simp add: bal_def set_indent_def)
  next
    case down
    have "count_list (take n (tokens lx @ replicate (prev_indent lx - k) T_Dedent)) T_Dedent
        \<le> count_list (take n (tokens lx @ replicate (prev_indent lx - k) T_Dedent)) T_Indent" for n
    proof (cases "n \<le> length (tokens lx)")
      case True
      then show ?thesis using le [of n] by simp
    next
      case False
      then have "take n (tokens lx @ replicate (prev_indent lx - k) T_Dedent) =
          tokens lx @ replicate (min (n - length (tokens lx)) (prev_indent lx - k)) T_Dedent"
        by simp
      moreover have "min (n - length (tokens lx)) (prev_indent lx - k) \<le> prev_indent lx"
        by simp
      ultimately show ?thesis using tot by simp
    qed
    then show ?thesis using down tot by (simp add: bal_def set_indent_def)
  next
    case same
    then show ?thesis using b by (simp add: set_indent_def)
  qed
qed

lemma prev_indent_set_indent [simp]: "prev_indent (set_indent k lx) = k"
  by (simp add: set_indent_def)

lemma prev_indent_ProcessNextLine [simp]: "prev_indent (ProcessNextLine lx) = prev_indent lx"
  by (simp add: ProcessNextLine_def push_back_def)

lemma adj_ok_snoc:
  assumes "adj_ok ts" "t = T_Newline \<longrightarrow> ts = [] \<or> last ts \<noteq> T_Newline"
  shows "adj_ok (ts @ [t])"
  unfolding adj_ok_def
proof (intro allI impI)
  fix i assume i: "Suc i < length (ts @ [t])"
  show "(ts @ [t]) ! i \<noteq> T_Newline \<or> (ts @ [t]) ! Suc i \<noteq> T_Newline"
  proof (cases "Suc i < length ts")
    case True
    then show ?thesis using assms(1) by (simp add: adj_ok_def nth_append)
  next
    case False
    with i have eq: "Suc i = length ts" by simp
    then have "ts \<noteq> []" by auto
    then have "last ts = ts ! (length ts - 1)" by (rule last_conv_nth)
    also have "length ts - 1 = i" using eq by simp
    finally have "last ts = ts ! i" .
    with eq assms(2) \<open>ts \<noteq> []\<close> show ?thesis by (auto simp: nth_append)
  qed
qed

lemma adj_ok_replicate:
  "adj_ok ts \<Longrightarrow> x \<noteq> T_Newline \<Longrightarrow> adj_ok (ts @ replicate k x)"
proof (induction k)
  case 0
  then show ?case by simp
next
  case (Suc k)
  then have "adj_ok ((ts @ replicate k x) @ [x])" by (intro adj_ok_snoc) simp_all
  then show ?case by (simp add: replicate_append_same)
qed

lemma adj_ok_ProcessNextLine: "adj_ok (tokens lx) \<Longrightarrow> adj_ok (tokens (ProcessNextLine lx))"
  by (simp add: ProcessNextLine_def push_back_def adj_ok_snoc)

lemma adj_ok_set_indent: "adj_ok (tokens lx) \<Longrightarrow> adj_ok (tokens (set_indent k lx))"
  by (simp add: set_indent_def adj_ok_replicate)

lemma grouped_closed:
  assumes "grouped ts groups cur" "ts = [] \<or> last ts = T_Newline"
  shows "cur = []"
proof (rule ccontr)
  assume "cur \<noteq> []"
  with assms(1) have "ts \<noteq> []" "last ts = last cur" "last cur \<in> set cur" "T_Newline \<notin> set cur"
    by (auto simp: grouped_def)
  with assms(2) show False by auto
qed

lemma grouped_open:
  assumes "grouped ts groups cur" "ts \<noteq> []" "last ts \<noteq> T_Newline"
  shows "cur \<noteq> []"
proof
  assume "cur = []"
  with assms(1) have ts: "ts = concat (map (\<lambda>g. g @ [T_Newline]) groups)"
    by (simp add: grouped_def)
  with assms(2) have "groups \<noteq> []" by auto
  then obtain gs' g where "groups = gs' @ [g]" by (metis rev_exhaust)
  with ts have "last ts = T_Newline" by simp
  with assms(3) show False by simp
qed

lemma grouped_push_back:
  "grouped ts groups cur \<Longrightarrow> plain t \<Longrightarrow> grouped (ts @ [t]) groups (cur @ [t])"
  by (auto simp: grouped_def plain_def)

lemma grouped_ProcessNextLine:
  assumes "grouped (tokens lx) groups cur"
  shows "\<exists>groups'. grouped (tokens (ProcessNextLine lx)) groups' []"
proof (cases "tokens lx \<noteq> [] \<and> last (tokens lx) \<noteq> T_Newline")
  case True
  with grouped_open [OF assms] have "cur \<noteq> []" by simp
  with assms have "grouped (tokens lx @ [T_Newline]) (groups @ [cur]) []"
    by (auto simp: grouped_def)
  with True show ?thesis by (auto simp: ProcessNextLine_def push_back_def)
next
  case False
  with grouped_closed [OF assms] have "cur = []" by blast
  with assms False show ?thesis by (auto simp: ProcessNextLine_def)
qed

lemma grouped_set_indent:
  assumes "grouped (tokens lx) groups []"
  shows "\<exists>cur. grouped (tokens (set_indent k lx)) groups cur"
proof -
  have "grouped (tokens lx @ replicate j T_Indent) groups (replicate j T_Indent)"
    and "grouped (tokens lx @ replicate j T_Dedent) groups (replicate j T_Dedent)" for j
    using assms by (auto simp: grouped_def)
  then show ?thesis using assms by (auto simp: set_indent_def)
qed

subsection \<open>The invariant of the main loop\<close>

lemma plain_push_back:
  assumes "lx' = lx \<or> (\<exists>t. plain t \<and> lx' = push_back t lx)"
    and "bal lx" "adj_ok (tokens lx)" "grouped (tokens lx) groups cur"
  shows "bal lx' \<and> adj_ok (tokens lx') \<and> (\<exists>groups cur. grouped (tokens lx') groups cur)
    \<and> prev_indent lx' = prev_indent lx"
proof (cases "lx' = lx")
  case True
  with assms(2-4) show ?thesis by auto
next
  case False
  with assms(1) obtain t where t: "plain t" "lx' = push_back t lx" by blast
  then have "bal lx'" using assms(2) by (simp add: bal_push_back plain_def)
  moreover have "adj_ok (tokens lx')"
    using t assms(3) by (simp add: push_back_def adj_ok_snoc plain_def)
  moreover have "grouped (tokens lx') groups (cur @ [t])"
    using t grouped_push_back [OF assms(4) t(1)] by (simp add: push_back_def)
  ultimately show ?thesis using t by (auto simp: push_back_def)
qed

lemma lex_inv_step:
  assumes inv: "lex_inv text s lx" and ok: "step_ok s lx s' lx'"
  shows "lex_inv text s' lx'"
proof -
  from inv obtain groups cur where
    b: "bal lx" and a: "adj_ok (tokens lx)" and g: "grouped (tokens lx) groups cur"
    and t: "rev (prev s) @ rest s = text"
    and j: "rest s = [] \<and> take 1 (prev s) = [CHR 0x0A] \<longrightarrow> prev_indent lx = 0"
    by (auto simp: lex_inv_def)
  from ok consider
      (eof) "rest s = []" "rest s' = []" "prev s' = prev s" "lx' = lx"
    | (nl) n where "consumed s s' (CHR 0x0A # replicate n (CHR '' ''))" "take 1 (rest s') \<noteq> '' ''"
        "lx' = (if take 1 (rest s') = [CHR 0x0A] then ProcessNextLine lx
                else set_indent (n div 2) (ProcessNextLine lx))"
    | (tok) cs where "consumed s s' cs" "cs \<noteq> []" "CHR 0x0A \<notin> set cs"
        "lx' = lx \<or> (\<exists>t. plain t \<and> lx' = push_back t lx)"
    unfolding step_ok_def by blast
  then show ?thesis
  proof cases
    case eof
    with inv show ?thesis by (simp add: lex_inv_def)
  next
    case nl
    from grouped_ProcessNextLine [OF g] obtain groups' where
      g': "grouped (tokens (ProcessNextLine lx)) groups' []" by blast
    have b': "bal lx'" using b nl(3) by (simp add: bal_ProcessNextLine bal_set_indent)
    have a': "adj_ok (tokens lx')"
      using a nl(3) by (simp add: adj_ok_ProcessNextLine adj_ok_set_indent)
    have g'': "\<exists>groups cur. grouped (tokens lx') groups cur"
      using g' grouped_set_indent [OF g', of "n div 2"] nl(3) by auto
    have t': "rev (prev s') @ rest s' = text"
      using t nl(1) by (simp add: consumed_def)
    have j': "rest s' = [] \<and> take 1 (prev s') = [CHR 0x0A] \<longrightarrow> prev_indent lx' = 0"
    proof
      assume h: "rest s' = [] \<and> take 1 (prev s') = [CHR 0x0A]"
      have "prev s' = replicate n (CHR '' '') @ CHR 0x0A # prev s"
        using nl(1) by (simp add: consumed_def)
      with h have "n = 0" by (cases n) auto
      with h nl(3) show "prev_indent lx' = 0" by simp
    qed
    from b' a' g'' t' j' show ?thesis by (simp add: lex_inv_def)
  next
    case tok
    from plain_push_back [OF tok(4) b a g]
    have p: "bal lx'" "adj_ok (tokens lx')" "\<exists>groups cur. grouped (tokens lx') groups cur"
      by simp_all
    have t': "rev (prev s') @ rest s' = text"
      using t tok(1) by (simp add: consumed_def)
    have "take 1 (prev s') = [last cs]"
      using tok(1,2) by (cases cs rule: rev_cases) (auto simp: consumed_def)
    moreover have "last cs \<noteq> CHR 0x0A" using tok(2,3) last_in_set by metis
    ultimately have j': "rest s' = [] \<and> take 1 (prev s') = [CHR 0x0A] \<longrightarrow> prev_indent lx' = 0"
      by simp
    from p t' j' show ?thesis by (simp add: lex_inv_def)
  qed
qed

lemma lex_inv_init:
  "lex_inv text (fst (ProcessIndent (istream_of text) lexer0)) (snd (ProcessIndent (istream_of text) lexer0))
   \<and> stream_ok (fst (ProcessIndent (istream_of text) lexer0))"
proof -
  define a where "a = takeWhile (\<lambda>c. c = CHR '' '') text"
  define b where "b = dropWhile (\<lambda>c. c = CHR '' '') text"
  have ab: "a @ b = text" by (simp add: a_def b_def)
  have "\<exists>n. a = replicate n (CHR '' '')"
    unfolding a_def
    by (rule exI [of _ "length (takeWhile (\<lambda>c. c = CHR '' '') text)"])
       (rule takeWhile_eq_replicate)
  then obtain n where n: "a = replicate n (CHR '' '')" ..
  have pi: "ProcessIndent (istream_of text) lexer0 =
     (\<lparr>rest = b, prev = rev a, eofbit = (b = []), failbit = (b = []), badbit = False\<rparr>,
      if take 1 b = [CHR 0x0A] then lexer0 else set_indent (length a div 2) lexer0)"
    unfolding istream_of_def ProcessIndent_explicit a_def b_def by simp
  have b0: "bal lexer0" and a0: "adj_ok (tokens lexer0)" and g0: "grouped (tokens lexer0) [] []"
    by (simp_all add: bal_def adj_ok_def grouped_def lexer0_def)
  have "set a \<subseteq> {CHR '' ''}" unfolding n by auto
  moreover have "take 1 (rev a) = [x] \<Longrightarrow> x \<in> set a" for x
    by (metis in_set_takeD list.set_intros(1) set_rev)
  ultimately have "take 1 (rev a) \<noteq> [CHR 0x0A]" by auto
  then show ?thesis
    unfolding pi fst_conv snd_conv lex_inv_def
    using b0 a0 g0 grouped_set_indent [OF g0, of "length a div 2"] ab
    by (auto simp: bal_set_indent adj_ok_set_indent stream_ok_def good_def)
qed

text \<open>What the constructor returns, in terms of the state the loop ends in.\<close>

lemma Lexer_of_result:
  "\<exists>res. Lexer_of text = Some res \<and>
     (\<forall>lx. res = Inr lx \<longrightarrow>
        (\<exists>s lx2. lex_inv text s lx2 \<and> rest s = []
           \<and> lx = push_back T_Eof
                   (if tokens lx2 \<noteq> [] \<and> last (tokens lx2) \<noteq> T_Dedent \<and> last (tokens lx2) \<noteq> T_Newline
                    then ProcessNextLine lx2 else lx2)))"
proof -
  obtain s1 lx1 where pi: "ProcessIndent (istream_of text) lexer0 = (s1, lx1)"
    by (cases "ProcessIndent (istream_of text) lexer0")
  with lex_inv_init [of "text"] have i1: "lex_inv text s1 lx1" "stream_ok s1" by simp_all
  have "\<exists>res. token_loop s1 lx1 = Some res
     \<and> (\<forall>s' lx'. res = Inr (s', lx') \<longrightarrow> lex_inv text s' lx' \<and> \<not> good s' \<and> stream_ok s')"
    by (rule token_loop_invariant [of "lex_inv text", OF i1]) (rule lex_inv_step)
  then obtain res where res: "token_loop s1 lx1 = Some res"
    "\<forall>s' lx'. res = Inr (s', lx') \<longrightarrow> lex_inv text s' lx' \<and> \<not> good s' \<and> stream_ok s'"
    by blast
  show ?thesis
  proof (cases res)
    case (Inl e)
    with pi res show ?thesis
      by (simp add: Lexer_of_def ProcessAllTokens_def lexer0_def)
  next
    case (Inr sl)
    obtain s2 lx2 where sl: "sl = (s2, lx2)" by (cases sl)
    with res Inr have "lex_inv text s2 lx2" "rest s2 = []"
      by (auto simp: stream_ok_def)
    with pi res Inr sl show ?thesis
      by (auto simp: Lexer_of_def ProcessAllTokens_def lexer0_def Let_def)
  qed
qed

lemma grouped_no_Eof: "grouped ts groups cur \<Longrightarrow> T_Eof \<notin> set ts"
  by (auto simp: grouped_def)

lemma string_loop_items:
  assumes "d = CHR 0x22 \<or> d = CHR 0x27"
  shows "\<forall>item\<in>set items. string_item d item \<Longrightarrow>
    \<exists>p' acc'. string_loop d \<lparr>rest = concat items @ tail, prev = p, eofbit = e, failbit = f, badbit = b\<rparr> acc
       = string_loop d \<lparr>rest = tail, prev = p', eofbit = e, failbit = f, badbit = b\<rparr> acc'"
proof (induction items arbitrary: p acc)
  case Nil
  show ?case by auto
next
  case (Cons item items)
  from Cons.prems have item: "string_item d item" and rest: "\<forall>item\<in>set items. string_item d item"
    by simp_all
  from item consider (plain) ch where "item = [ch]" "plain_string_char d ch"
    | (esc) esc where "item = [CHR 0x5C, esc]" "escaped esc \<noteq> None"
    unfolding string_item_def by blast
  then show ?case
  proof cases
    case plain
    then have "string_loop d \<lparr>rest = concat (item # items) @ tail, prev = p, eofbit = e, failbit = f,
          badbit = b\<rparr> acc =
        string_loop d \<lparr>rest = concat items @ tail, prev = ch # p, eofbit = e, failbit = f, badbit = b\<rparr>
          (acc @ [ch])"
      by (subst string_loop_unfold) (simp add: plain_string_char_def)
    with Cons.IH [OF rest, of "ch # p" "acc @ [ch]"] show ?thesis by simp
  next
    case esc
    then obtain c where c: "escaped esc = Some c" by auto
    have "d \<noteq> CHR 0x5C" using assms by auto
    with esc c have "string_loop d \<lparr>rest = concat (item # items) @ tail, prev = p, eofbit = e,
          failbit = f, badbit = b\<rparr> acc =
        string_loop d \<lparr>rest = concat items @ tail, prev = esc # CHR 0x5C # p, eofbit = e, failbit = f,
          badbit = b\<rparr> (acc @ [c])"
      by (subst string_loop_unfold) simp
    with Cons.IH [OF rest, of "esc # CHR 0x5C # p" "acc @ [c]"] show ?thesis by simp
  qed
qed

lemma string_loop_literal_error:
  assumes "d = CHR 0x22 \<or> d = CHR 0x27" "literal_error tail = Some msg"
  shows "string_loop d \<lparr>rest = tail, prev = p, eofbit = e, failbit = f, badbit = b\<rparr> acc =
     Inl (ParsingError msg)"
proof (cases tail)
  case Nil
  with assms(2) show ?thesis by (subst string_loop_unfold) simp
next
  case (Cons c cs)
  have d: "d \<noteq> CHR 0x5C" "d \<noteq> CHR 0x0A" "d \<noteq> CHR 0x0D" using assms(1) by auto
  show ?thesis
  proof (cases "c = CHR 0x0A \<or> c = CHR 0x0D")
    case True
    with assms(2) Cons d show ?thesis by (subst string_loop_unfold) auto
  next
    case False
    with assms(2) Cons have c: "c = CHR 0x5C" by (auto split: if_splits)
    with assms(2) Cons d False show ?thesis
      by (subst string_loop_unfold) (auto split: list.splits if_splits)
  qed
qed

lemma set_indent_same [simp]: "set_indent (prev_indent lx) lx = lx"
  by (simp add: set_indent_def)

subsection \<open>Malformed string literals\<close>

text \<open>
  C2, as the code has it. Whenever the main loop stands at the opening delimiter of a string
  literal that is malformed (the input ends before the closing delimiter, a newline or
  carriage return stands in the string, or a backslash stands before a character that is no
  known escape), tokenization fails as a whole, so no token is produced for the string or
  for anything else; the exception is a \<open>ParsingError\<close> with the message of the case, and
  never a \<open>LexerError\<close>. The same holds for the constructor on an input that begins with
  such a literal.
\<close>

theorem malformed_string_ParsingError:
  assumes "q = CHR 0x22 \<or> q = CHR 0x27"
    and "\<forall>item\<in>set items. string_item q item"
    and "literal_error tail = Some msg"
  shows "token_loop \<lparr>rest = q # concat items @ tail, prev = p, eofbit = False, failbit = False,
             badbit = False\<rparr> lx = Some (Inl (ParsingError msg))
     \<and> Lexer_of (q # concat items @ tail) = Some (Inl (ParsingError msg))
     \<and> \<not> fails_with_LexerError (Lexer_of (q # concat items @ tail))"
proof -
  have sl: "string_loop q (gs (concat items @ tail) p') [] = Inl (ParsingError msg)" for p'
    using string_loop_items [OF assms(1,2), of tail p' False False False "[]"]
      string_loop_literal_error [OF assms(1,3)]
    by auto
  have step: "ProcessNextToken (gs (q # concat items @ tail) p') lx' = Some (Inl (ParsingError msg))"
    for p' lx'
    unfolding step_string [OF assms(1)] sl by simp
  have loop: "token_loop (gs (q # concat items @ tail) p') lx' = Some (Inl (ParsingError msg))"
    for p' lx'
    by (subst token_loop.simps) (simp add: step good_def)
  have "q \<noteq> CHR '' ''" "q \<noteq> CHR 0x0A" using assms(1) by auto
  then have "ProcessIndent (istream_of (q # concat items @ tail)) lexer0 =
      (gs (q # concat items @ tail) [], lexer0)"
    unfolding istream_of_def ProcessIndent_explicit
    using set_indent_same [of lexer0] by (simp add: lexer0_def)
  then have "Lexer_of (q # concat items @ tail) = Some (Inl (ParsingError msg))"
    by (simp add: Lexer_of_def ProcessAllTokens_def loop lexer0_def)
  then show ?thesis using loop by (simp add: fails_with_LexerError_def)
qed

theorem string_error_is_not_LexerError:
  "Lexer_of (''x = '' @ [CHR 0x27] @ ''abc'') = Some (Inl (ParsingError ''String parsing error''))
   \<and> \<not> fails_with_LexerError (Lexer_of (''x = '' @ [CHR 0x27] @ ''abc''))"
proof -
  have "Lexer_of (''x = '' @ [CHR 0x27] @ ''abc'') = Some (Inl (ParsingError ''String parsing error''))"
    by code_simp
  then show ?thesis by (simp add: fails_with_LexerError_def)
qed

theorem malformed_string_ParsingError_witness:
  "Lexer_of (CHR 0x27 # concat [''a'', ''b''] @ []) = Some (Inl (ParsingError ''String parsing error''))
   \<and> Lexer_of (CHR 0x22 # concat [''a'', [CHR 0x5C, CHR ''n'']] @ [CHR 0x0A, CHR 0x22])
       = Some (Inl (ParsingError ''Unexpected end of line''))
   \<and> Lexer_of (CHR 0x22 # concat [''a''] @ [CHR 0x5C, CHR ''q'', CHR 0x22])
       = Some (Inl (ParsingError (''Unrecognized escape sequence '' @ [CHR 0x5C, CHR ''q''])))"
proof -
  have i1: "\<forall>item\<in>set [''a'', ''b'']. string_item (CHR 0x27) item"
    and i2: "\<forall>item\<in>set [''a'', [CHR 0x5C, CHR ''n'']]. string_item (CHR 0x22) item"
    and i3: "\<forall>item\<in>set [''a'']. string_item (CHR 0x22) item"
    by (simp_all add: string_item_def plain_string_char_def escaped_def)
  have e1: "literal_error [] = Some ''String parsing error''"
    and e2: "literal_error [CHR 0x0A, CHR 0x22] = Some ''Unexpected end of line''"
    and e3: "literal_error [CHR 0x5C, CHR ''q'', CHR 0x22]
        = Some (''Unrecognized escape sequence '' @ [CHR 0x5C, CHR ''q''])"
    by (simp_all add: escaped_def)
  from malformed_string_ParsingError [OF _ i1 e1] malformed_string_ParsingError [OF _ i2 e2]
    malformed_string_ParsingError [OF _ i3 e3]
  show ?thesis by simp
qed

subsection \<open>Indentation balance\<close>

text \<open>
  Tokenization always ends. For every accepted input the token sequence ends with \<open>Eof\<close>,
  which occurs nowhere else and is preceded, unless it is the only token, by a \<open>Newline\<close> or
  a \<open>Dedent\<close>; in every prefix of the sequence there are at least as many \<open>Indent\<close> as
  \<open>Dedent\<close> tokens; at the end the number of \<open>Indent\<close> tokens exceeds the number of \<open>Dedent\<close>
  tokens by \<open>prev_indent\<close>; and the two numbers are equal when the input ends with a newline
  character, where \<open>ProcessIndent\<close> runs once more and closes the open levels.
\<close>

lemma indentation_counts:
  "(\<exists>res. Lexer_of text = Some res)
   \<and> (\<forall>lx. Lexer_of text = Some (Inr lx) \<longrightarrow>
        (\<exists>ts. tokens lx = ts @ [T_Eof] \<and> T_Eof \<notin> set ts
               \<and> (ts = [] \<or> last ts = T_Newline \<or> last ts = T_Dedent))
        \<and> (\<forall>n. count_list (take n (tokens lx)) T_Dedent \<le> count_list (take n (tokens lx)) T_Indent)
        \<and> count_list (tokens lx) T_Indent = count_list (tokens lx) T_Dedent + prev_indent lx
        \<and> (text \<noteq> [] \<and> last text = CHR 0x0A \<longrightarrow>
             count_list (tokens lx) T_Indent = count_list (tokens lx) T_Dedent))"
proof -
  from Lexer_of_result [of "text"] obtain res where res: "Lexer_of text = Some res"
    and inr: "\<forall>lx. res = Inr lx \<longrightarrow>
        (\<exists>s lx2. lex_inv text s lx2 \<and> rest s = []
           \<and> lx = push_back T_Eof
                   (if tokens lx2 \<noteq> [] \<and> last (tokens lx2) \<noteq> T_Dedent \<and> last (tokens lx2) \<noteq> T_Newline
                    then ProcessNextLine lx2 else lx2))"
    by blast
  have "\<exists>ts. tokens lx = ts @ [T_Eof] \<and> T_Eof \<notin> set ts
               \<and> (ts = [] \<or> last ts = T_Newline \<or> last ts = T_Dedent)"
    and "\<forall>n. count_list (take n (tokens lx)) T_Dedent \<le> count_list (take n (tokens lx)) T_Indent"
    and "count_list (tokens lx) T_Indent = count_list (tokens lx) T_Dedent + prev_indent lx"
    and "text \<noteq> [] \<and> last text = CHR 0x0A \<longrightarrow>
             count_list (tokens lx) T_Indent = count_list (tokens lx) T_Dedent"
    if "Lexer_of text = Some (Inr lx)" for lx
  proof -
    from that res inr obtain s lx2 where inv: "lex_inv text s lx2" and e: "rest s = []"
      and lx: "lx = push_back T_Eof
                   (if tokens lx2 \<noteq> [] \<and> last (tokens lx2) \<noteq> T_Dedent \<and> last (tokens lx2) \<noteq> T_Newline
                    then ProcessNextLine lx2 else lx2)"
      by auto
    define lx3 where "lx3 = (if tokens lx2 \<noteq> [] \<and> last (tokens lx2) \<noteq> T_Dedent
        \<and> last (tokens lx2) \<noteq> T_Newline then ProcessNextLine lx2 else lx2)"
    from inv obtain groups cur where b2: "bal lx2" and g2: "grouped (tokens lx2) groups cur"
      and t: "rev (prev s) @ rest s = text"
      and j: "rest s = [] \<and> take 1 (prev s) = [CHR 0x0A] \<longrightarrow> prev_indent lx2 = 0"
      by (auto simp: lex_inv_def)
    have b3: "bal lx3" using b2 by (simp add: lx3_def bal_ProcessNextLine)
    have p3: "prev_indent lx3 = prev_indent lx2" by (simp add: lx3_def)
    have "\<exists>groups cur. grouped (tokens lx3) groups cur"
    proof (cases "tokens lx2 \<noteq> [] \<and> last (tokens lx2) \<noteq> T_Dedent \<and> last (tokens lx2) \<noteq> T_Newline")
      case True
      then have "lx3 = ProcessNextLine lx2" by (simp add: lx3_def)
      with grouped_ProcessNextLine [OF g2] show ?thesis by auto
    next
      case False
      then have "lx3 = lx2" by (simp only: lx3_def if_False)
      with g2 show ?thesis by auto
    qed
    then have e3: "T_Eof \<notin> set (tokens lx3)" using grouped_no_Eof by blast
    have l3: "tokens lx3 = [] \<or> last (tokens lx3) = T_Newline \<or> last (tokens lx3) = T_Dedent"
      by (auto simp: lx3_def ProcessNextLine_def push_back_def)
    have lx': "lx = push_back T_Eof lx3" using lx by (simp add: lx3_def)
    then have tk: "tokens lx = tokens lx3 @ [T_Eof]" by (simp add: push_back_def)
    show "\<exists>ts. tokens lx = ts @ [T_Eof] \<and> T_Eof \<notin> set ts
               \<and> (ts = [] \<or> last ts = T_Newline \<or> last ts = T_Dedent)"
      using tk e3 l3 by blast
    have b: "bal lx" unfolding lx' using b3 by (rule bal_push_back) simp_all
    then show "\<forall>n. count_list (take n (tokens lx)) T_Dedent \<le> count_list (take n (tokens lx)) T_Indent"
      and tot: "count_list (tokens lx) T_Indent = count_list (tokens lx) T_Dedent + prev_indent lx"
      by (simp_all add: bal_def)
    show "text \<noteq> [] \<and> last text = CHR 0x0A \<longrightarrow>
             count_list (tokens lx) T_Indent = count_list (tokens lx) T_Dedent"
    proof
      assume h: "text \<noteq> [] \<and> last text = CHR 0x0A"
      from t e have "prev s = rev text" by (metis append_Nil2 rev_rev_ident)
      with h have "take 1 (prev s) = [CHR 0x0A]"
        by (cases "text" rule: rev_cases) auto
      with j e have "prev_indent lx2 = 0" by simp
      with p3 lx' have "prev_indent lx = 0" by (simp add: push_back_def)
      with tot show "count_list (tokens lx) T_Indent = count_list (tokens lx) T_Dedent" by simp
    qed
  qed
  with res show ?thesis by blast
qed

text \<open>
  C3. Without a newline character at its end the input is not brought back to level zero:
  \<open>ProcessAllTokens\<close> adds the outstanding \<open>Newline\<close> and \<open>Eof\<close> and no \<open>Dedent\<close>. The input
  \<open>if x:\<close>, newline, two spaces, \<open>y\<close> has an indented last line and no trailing newline; its
  tokens end with \<open>Newline\<close>, \<open>Eof\<close>, with one \<open>Indent\<close> and no \<open>Dedent\<close>. The same input
  followed by a newline character ends with \<open>Newline\<close>, \<open>Dedent\<close>, \<open>Eof\<close>.
\<close>

theorem unclosed_indent_at_end:
  "Lexer_of (''if x:'' @ [CHR 0x0A] @ ''  y'') =
     Some (Inr \<lparr>tokens = [T_If, T_Id ''x'', T_Char CHR '':'', T_Newline, T_Indent, T_Id ''y'',
                          T_Newline, T_Eof],
                prev_indent = 1, current_pos = 0\<rparr>)
   \<and> count_list [T_If, T_Id ''x'', T_Char CHR '':'', T_Newline, T_Indent, T_Id ''y'', T_Newline, T_Eof]
        T_Indent = 1
   \<and> count_list [T_If, T_Id ''x'', T_Char CHR '':'', T_Newline, T_Indent, T_Id ''y'', T_Newline, T_Eof]
        T_Dedent = 0
   \<and> Lexer_of (''if x:'' @ [CHR 0x0A] @ ''  y'' @ [CHR 0x0A]) =
     Some (Inr \<lparr>tokens = [T_If, T_Id ''x'', T_Char CHR '':'', T_Newline, T_Indent, T_Id ''y'',
                          T_Newline, T_Dedent, T_Eof],
                prev_indent = 0, current_pos = 0\<rparr>)"
proof -
  have "Lexer_of (''if x:'' @ [CHR 0x0A] @ ''  y'') =
     Some (Inr \<lparr>tokens = [T_If, T_Id ''x'', T_Char CHR '':'', T_Newline, T_Indent, T_Id ''y'',
                          T_Newline, T_Eof],
                prev_indent = 1, current_pos = 0\<rparr>)"
    by code_simp
  moreover have "Lexer_of (''if x:'' @ [CHR 0x0A] @ ''  y'' @ [CHR 0x0A]) =
     Some (Inr \<lparr>tokens = [T_If, T_Id ''x'', T_Char CHR '':'', T_Newline, T_Indent, T_Id ''y'',
                          T_Newline, T_Dedent, T_Eof],
                prev_indent = 0, current_pos = 0\<rparr>)"
    by code_simp
  ultimately show ?thesis by simp
qed

subsection \<open>Newlines\<close>

text \<open>
  Inside a line a step of the main loop depends neither on what follows the end of the line
  nor on what the stream has delivered before, and it adds the same tokens to any buffer.
\<close>

lemma more_tokens_Nil [simp]: "more_tokens [] lx = lx"
  by (simp add: more_tokens_def)

lemma more_tokens_more [simp]: "more_tokens ts2 (more_tokens ts1 lx) = more_tokens (ts1 @ ts2) lx"
  by (simp add: more_tokens_def)

lemma push_back_more: "push_back t lx = more_tokens [t] lx"
  by (simp add: more_tokens_def push_back_def)

lemma tokens_more [simp]: "tokens (more_tokens ts lx) = tokens lx @ ts"
  by (simp add: more_tokens_def)

lemma prev_indent_more [simp]: "prev_indent (more_tokens ts lx) = prev_indent lx"
  by (simp add: more_tokens_def)

lemma takeWhile_append_nl:
  "\<not> P (CHR 0x0A) \<Longrightarrow> takeWhile P (u @ CHR 0x0A # Z) = takeWhile P u"
  by (induction u) auto

lemma dropWhile_append_nl:
  "\<not> P (CHR 0x0A) \<Longrightarrow> dropWhile P (u @ CHR 0x0A # Z) = dropWhile P u @ CHR 0x0A # Z"
  by (induction u) auto

lemma takeWhile_to_nl:
  "CHR 0x0A \<notin> set r \<Longrightarrow> takeWhile (\<lambda>c. c \<noteq> CHR 0x0A) (r @ CHR 0x0A # Z) = r"
  by (induction r) auto

lemma dropWhile_to_nl:
  "CHR 0x0A \<notin> set r \<Longrightarrow> dropWhile (\<lambda>c. c \<noteq> CHR 0x0A) (r @ CHR 0x0A # Z) = CHR 0x0A # Z"
  by (induction r) auto

lemma takeWhile_all_line:
  "CHR 0x0A \<notin> set r \<Longrightarrow> takeWhile (\<lambda>c. c \<noteq> CHR 0x0A) r = r"
  by (induction r) auto

lemma dropWhile_all_line:
  "CHR 0x0A \<notin> set r \<Longrightarrow> dropWhile (\<lambda>c. c \<noteq> CHR 0x0A) r = []"
  by (induction r) auto

lemma escaped_newline: "escaped (CHR 0x0A) = None"
  by (simp add: escaped_def)

lemma string_loop_local:
  assumes d: "d \<noteq> CHR 0x0A"
  shows "CHR 0x0A \<notin> set r \<Longrightarrow>
     (\<exists>e. string_loop d (gs (r @ CHR 0x0A # Z) p) acc = Inl e)
     \<or> (\<exists>cs r' str p'. r = cs @ r' \<and> cs \<noteq> []
          \<and> string_loop d (gs (r @ CHR 0x0A # Z) p) acc = Inr (gs (r' @ CHR 0x0A # Z) p', str)
          \<and> (\<forall>p2. \<exists>p2'. string_loop d (gs r p2) acc = Inr (gs r' p2', str)))"
proof (induction "length r" arbitrary: r p acc rule: less_induct)
  case less
  show ?case
  proof (cases r)
    case Nil
    then show ?thesis using d by (simp add: string_loop_unfold)
  next
    case (Cons ch r1)
    with less.prems have ch: "ch \<noteq> CHR 0x0A" and r1: "CHR 0x0A \<notin> set r1" by auto
    show ?thesis
    proof (cases "ch = d")
      case True
      have "string_loop d (gs (r @ CHR 0x0A # Z) p) acc = Inr (gs (r1 @ CHR 0x0A # Z) (ch # p), acc)"
        using True Cons by (simp add: string_loop_unfold)
      moreover have "\<forall>p2. \<exists>p2'. string_loop d (gs r p2) acc = Inr (gs r1 p2', acc)"
        using True Cons by (simp add: string_loop_unfold)
      ultimately show ?thesis using Cons
        by (intro disjI2 exI [of _ "[ch]"] exI [of _ r1] exI [of _ acc] exI [of _ "ch # p"]) simp
    next
      case nd: False
      show ?thesis
      proof (cases "ch = CHR 0x5C")
        case True
        show ?thesis
        proof (cases r1)
          case Nil
          then show ?thesis using True nd Cons
            by (simp add: string_loop_unfold escaped_newline)
        next
          case (Cons esc r2)
          note r1_eq = this
          show ?thesis
          proof (cases "escaped esc")
            case None
            then show ?thesis using True nd \<open>r = ch # r1\<close> r1_eq
              by (simp add: string_loop_unfold)
          next
            case (Some x)
            have len: "length r2 < length r" using \<open>r = ch # r1\<close> r1_eq by simp
            have r2: "CHR 0x0A \<notin> set r2" using r1 r1_eq by simp
            have full: "string_loop d (gs (r @ CHR 0x0A # Z) p) acc
                = string_loop d (gs (r2 @ CHR 0x0A # Z) (esc # ch # p)) (acc @ [x])"
              using True nd \<open>r = ch # r1\<close> r1_eq Some by (simp add: string_loop_unfold)
            have alone: "string_loop d (gs r p2) acc
                = string_loop d (gs r2 (esc # ch # p2)) (acc @ [x])" for p2
              using True nd \<open>r = ch # r1\<close> r1_eq Some by (simp add: string_loop_unfold)
            from less.hyps [OF len r2, of "esc # ch # p" "acc @ [x]"]
            show ?thesis
            proof (elim disjE exE conjE)
              fix e assume "string_loop d (gs (r2 @ CHR 0x0A # Z) (esc # ch # p)) (acc @ [x]) = Inl e"
              then show ?thesis unfolding full by blast
            next
              fix cs r' str p'
              assume a: "r2 = cs @ r'" "cs \<noteq> []"
                "string_loop d (gs (r2 @ CHR 0x0A # Z) (esc # ch # p)) (acc @ [x])
                   = Inr (gs (r' @ CHR 0x0A # Z) p', str)"
                "\<forall>p2. \<exists>p2'. string_loop d (gs r2 p2) (acc @ [x]) = Inr (gs r' p2', str)"
              have "\<forall>p2. \<exists>p2'. string_loop d (gs r p2) acc = Inr (gs r' p2', str)"
                unfolding alone using a(4) by blast
              then show ?thesis unfolding full using a(1,3) \<open>r = ch # r1\<close> r1_eq
                by (intro disjI2 exI [of _ "ch # esc # cs"] exI [of _ r'] exI [of _ str] exI [of _ p'])
                   simp
            qed
          qed
        qed
      next
        case nb: False
        show ?thesis
        proof (cases "ch = CHR 0x0D")
          case True
          then show ?thesis using nd nb Cons by (simp add: string_loop_unfold)
        next
          case False
          have len: "length r1 < length r" using Cons by simp
          have full: "string_loop d (gs (r @ CHR 0x0A # Z) p) acc
              = string_loop d (gs (r1 @ CHR 0x0A # Z) (ch # p)) (acc @ [ch])"
            using False nd nb ch Cons by (simp add: string_loop_unfold)
          have alone: "string_loop d (gs r p2) acc = string_loop d (gs r1 (ch # p2)) (acc @ [ch])" for p2
            using False nd nb ch Cons by (simp add: string_loop_unfold)
          from less.hyps [OF len r1, of "ch # p" "acc @ [ch]"]
          show ?thesis
          proof (elim disjE exE conjE)
            fix e assume "string_loop d (gs (r1 @ CHR 0x0A # Z) (ch # p)) (acc @ [ch]) = Inl e"
            then show ?thesis unfolding full by blast
          next
            fix cs r' str p'
            assume a: "r1 = cs @ r'" "cs \<noteq> []"
              "string_loop d (gs (r1 @ CHR 0x0A # Z) (ch # p)) (acc @ [ch])
                 = Inr (gs (r' @ CHR 0x0A # Z) p', str)"
              "\<forall>p2. \<exists>p2'. string_loop d (gs r1 p2) (acc @ [ch]) = Inr (gs r' p2', str)"
            have "\<forall>p2. \<exists>p2'. string_loop d (gs r p2) acc = Inr (gs r' p2', str)"
              unfolding alone using a(4) by blast
            then show ?thesis unfolding full using a(1,3) Cons
              by (intro disjI2 exI [of _ "ch # cs"] exI [of _ r'] exI [of _ str] exI [of _ p']) simp
          qed
        qed
      qed
    qed
  qed
qed

lemma ProcessWord_uniform:
  "\<exists>ts. (\<forall>t\<in>set ts. plain t) \<and>
     (\<forall>r p lx. takeWhile is_word_char r = w \<longrightarrow>
        ProcessWord (gs r p) lx =
          (\<lparr>rest = dropWhile is_word_char r, prev = rev w @ p,
            eofbit = (dropWhile is_word_char r = []), failbit = (dropWhile is_word_char r = []),
            badbit = False\<rparr>,
           more_tokens ts lx))"
proof (cases "IsKeyWord w")
  case True
  from keyword_plain [OF this] obtain t where
    "map_of KEYWORD_TO_TOKEN w = Some t" "plain t" by blast
  with True show ?thesis
    by (intro exI [of _ "[t]"])
       (auto simp: ProcessWord_def word_loop_explicit ProcessKeyWord_def push_back_more)
next
  case False
  then show ?thesis
    by (intro exI [of _ "[T_Id w]"])
       (auto simp: ProcessWord_def word_loop_explicit plain_def push_back_more)
qed

lemma comparison_uniform:
  assumes "IsComparisonOperator c d"
  shows "d \<noteq> CHR 0x0A \<and> (\<exists>t. plain t \<and> (\<forall>lx. ProcessComparisonOperator c d lx = push_back t lx))"
proof -
  from IsComparisonOperator_cases [OF assms] have d: "d = CHR ''=''"
    and c: "c = CHR ''>'' \<or> c = CHR ''='' \<or> c = CHR ''<'' \<or> c = CHR ''!''" by simp_all
  from c have "\<exists>t. plain t \<and> (\<forall>lx. ProcessComparisonOperator c d lx = push_back t lx)"
  proof (elim disjE)
    assume "c = CHR ''>''"
    then show ?thesis unfolding d
      by (intro exI [of _ T_GreaterOrEq]) (simp add: ProcessComparisonOperator_def plain_def)
  next
    assume "c = CHR ''=''"
    then show ?thesis unfolding d
      by (intro exI [of _ T_Eq]) (simp add: ProcessComparisonOperator_def plain_def)
  next
    assume "c = CHR ''<''"
    then show ?thesis unfolding d
      by (intro exI [of _ T_LessOrEq]) (simp add: ProcessComparisonOperator_def plain_def)
  next
    assume "c = CHR ''!''"
    then show ?thesis unfolding d
      by (intro exI [of _ T_NotEq]) (simp add: ProcessComparisonOperator_def plain_def)
  qed
  with d show ?thesis by simp
qed

text \<open>
  One step on a line followed by a newline character, and the same step on the line followed
  by nothing: unless the first throws, both consume the same characters and add the same
  tokens.
\<close>

lemma step_localI:
  "c # r = cs @ r' \<Longrightarrow> cs \<noteq> [] \<Longrightarrow> \<forall>t\<in>set ts. plain t \<Longrightarrow>
   ProcessNextToken (gs (c # r @ CHR 0x0A # Z) p) lx
     = Some (Inr (gs (r' @ CHR 0x0A # Z) p', more_tokens ts lx)) \<Longrightarrow>
   (\<And>p2 lx2. \<exists>s2. ProcessNextToken (gs (c # r) p2) lx2 = Some (Inr (s2, more_tokens ts lx2))
        \<and> rest s2 = r' \<and> (good s2 \<or> r' = [])) \<Longrightarrow>
   (\<exists>e. ProcessNextToken (gs (c # r @ CHR 0x0A # Z) p) lx = Some (Inl e))
     \<or> (\<exists>cs r' ts p'. c # r = cs @ r' \<and> cs \<noteq> [] \<and> (\<forall>t\<in>set ts. plain t)
          \<and> ProcessNextToken (gs (c # r @ CHR 0x0A # Z) p) lx
              = Some (Inr (gs (r' @ CHR 0x0A # Z) p', more_tokens ts lx))
          \<and> (\<forall>p2 lx2. \<exists>s2. ProcessNextToken (gs (c # r) p2) lx2 = Some (Inr (s2, more_tokens ts lx2))
                \<and> rest s2 = r' \<and> (good s2 \<or> r' = [])))"
  by blast

lemma step_local:
  assumes c: "c \<noteq> CHR 0x0A" and r: "CHR 0x0A \<notin> set r"
  shows "(\<exists>e. ProcessNextToken (gs (c # r @ CHR 0x0A # Z) p) lx = Some (Inl e))
     \<or> (\<exists>cs r' ts p'. c # r = cs @ r' \<and> cs \<noteq> [] \<and> (\<forall>t\<in>set ts. plain t)
          \<and> ProcessNextToken (gs (c # r @ CHR 0x0A # Z) p) lx
              = Some (Inr (gs (r' @ CHR 0x0A # Z) p', more_tokens ts lx))
          \<and> (\<forall>p2 lx2. \<exists>s2. ProcessNextToken (gs (c # r) p2) lx2 = Some (Inr (s2, more_tokens ts lx2))
                \<and> rest s2 = r' \<and> (good s2 \<or> r' = [])))"
proof -
  consider (str) "c = CHR 0x22 \<or> c = CHR 0x27"
    | (word) "c = CHR ''_'' \<or> isalpha c"
    | (num) "isdigit c" | (comment) "c = CHR ''#''"
    | (punct) "ispunct c" "c \<noteq> CHR 0x22" "c \<noteq> CHR 0x27" "c \<noteq> CHR ''_''" "c \<noteq> CHR ''#''"
    | (other) "c \<noteq> CHR 0x0A" "c \<noteq> CHR 0x22" "c \<noteq> CHR 0x27" "c \<noteq> CHR ''_''" "\<not> isalpha c"
        "\<not> isdigit c" "c \<noteq> CHR ''#''" "\<not> ispunct c"
    using c by blast
  then show ?thesis
  proof cases
    case str
    from string_loop_local [OF c r, of Z "c # p" "[]"]
    show ?thesis
    proof (elim disjE exE conjE)
      fix e assume "string_loop c (gs (r @ CHR 0x0A # Z) (c # p)) [] = Inl e"
      then show ?thesis
        unfolding step_string [OF str] by simp
    next
      fix cs r' sl p'
      assume a: "r = cs @ r'"
        "string_loop c (gs (r @ CHR 0x0A # Z) (c # p)) [] = Inr (gs (r' @ CHR 0x0A # Z) p', sl)"
        "\<forall>p2. \<exists>p2'. string_loop c (gs r p2) [] = Inr (gs r' p2', sl)"
      show ?thesis
      proof (rule step_localI [where cs = "c # cs" and r' = r' and ts = "[T_String sl]" and p' = p'])
        show "c # r = (c # cs) @ r'" using a(1) by simp
        show "c # cs \<noteq> []" by simp
        show "\<forall>t\<in>set [T_String sl]. plain t" by (simp add: plain_def)
        show "ProcessNextToken (gs (c # r @ CHR 0x0A # Z) p) lx
            = Some (Inr (gs (r' @ CHR 0x0A # Z) p', more_tokens [T_String sl] lx))"
          unfolding step_string [OF str] a(2) by (simp add: push_back_more)
        fix p2 lx2
        from a(3) obtain p2' where "string_loop c (gs r (c # p2)) [] = Inr (gs r' p2', sl)"
          by blast
        then have "ProcessNextToken (gs (c # r) p2) lx2 = Some (Inr (gs r' p2', more_tokens [T_String sl] lx2))"
          unfolding step_string [OF str] by (simp add: push_back_more)
        then show "\<exists>s2. ProcessNextToken (gs (c # r) p2) lx2 = Some (Inr (s2, more_tokens [T_String sl] lx2))
            \<and> rest s2 = r' \<and> (good s2 \<or> r' = [])"
          by (simp add: good_def)
      qed
    qed
  next
    case word
    then have wc: "is_word_char c" by (auto simp: is_word_char_def)
    define w where "w = takeWhile is_word_char (c # r)"
    define r' where "r' = dropWhile is_word_char (c # r)"
    have split: "c # r = w @ r'" by (simp add: w_def r'_def)
    have wne: "w \<noteq> []" using wc by (simp add: w_def)
    have tw: "takeWhile is_word_char (c # r @ CHR 0x0A # Z) = w"
      using takeWhile_append_nl [of is_word_char "c # r" Z, OF not_word_char_newline]
      by (simp add: w_def)
    have dw: "dropWhile is_word_char (c # r @ CHR 0x0A # Z) = r' @ CHR 0x0A # Z"
      using dropWhile_append_nl [of is_word_char "c # r" Z, OF not_word_char_newline]
      by (simp add: r'_def)
    from ProcessWord_uniform [of w] obtain ts where ts: "\<forall>t\<in>set ts. plain t"
      and pw: "\<And>r p lx. takeWhile is_word_char r = w \<Longrightarrow>
        ProcessWord (gs r p) lx =
          (\<lparr>rest = dropWhile is_word_char r, prev = rev w @ p,
            eofbit = (dropWhile is_word_char r = []), failbit = (dropWhile is_word_char r = []),
            badbit = False\<rparr>,
           more_tokens ts lx)"
      by blast
    show ?thesis
    proof (rule step_localI [where cs = w and r' = r' and ts = ts and p' = "rev w @ p"])
      show "c # r = w @ r'" by (rule split)
      show "w \<noteq> []" by (rule wne)
      show "\<forall>t\<in>set ts. plain t" by (rule ts)
      show "ProcessNextToken (gs (c # r @ CHR 0x0A # Z) p) lx
          = Some (Inr (gs (r' @ CHR 0x0A # Z) (rev w @ p), more_tokens ts lx))"
        unfolding step_word [OF word] pw [OF tw] dw by simp
      fix p2 lx2
      have "takeWhile is_word_char (c # r) = w" by (simp add: w_def)
      from pw [OF this, of p2 lx2]
      show "\<exists>s2. ProcessNextToken (gs (c # r) p2) lx2 = Some (Inr (s2, more_tokens ts lx2))
            \<and> rest s2 = r' \<and> (good s2 \<or> r' = [])"
        unfolding step_word [OF word] by (simp add: r'_def good_def)
    qed
  next
    case num
    define w where "w = takeWhile isdigit (c # r)"
    define r' where "r' = dropWhile isdigit (c # r)"
    have split: "c # r = w @ r'" by (simp add: w_def r'_def)
    have wne: "w \<noteq> []" using num by (simp add: w_def)
    have tw: "takeWhile isdigit (c # r @ CHR 0x0A # Z) = w"
      using takeWhile_append_nl [of isdigit "c # r" Z, OF not_isdigit_newline]
      by (simp add: w_def)
    have dw: "dropWhile isdigit (c # r @ CHR 0x0A # Z) = r' @ CHR 0x0A # Z"
      using dropWhile_append_nl [of isdigit "c # r" Z, OF not_isdigit_newline]
      by (simp add: r'_def)
    show ?thesis
    proof (cases "stoi w")
      case (Inl e)
      then show ?thesis
        unfolding step_num [OF num] ProcessNum_explicit tw by simp
    next
      case (Inr v)
      show ?thesis
      proof (rule step_localI [where cs = w and r' = r' and ts = "[T_Number v]" and p' = "rev w @ p"])
        show "c # r = w @ r'" by (rule split)
        show "w \<noteq> []" by (rule wne)
        show "\<forall>t\<in>set [T_Number v]. plain t" by (simp add: plain_def)
        show "ProcessNextToken (gs (c # r @ CHR 0x0A # Z) p) lx
            = Some (Inr (gs (r' @ CHR 0x0A # Z) (rev w @ p), more_tokens [T_Number v] lx))"
          unfolding step_num [OF num] ProcessNum_explicit tw dw Inr by (simp add: push_back_more)
        fix p2 lx2
        show "\<exists>s2. ProcessNextToken (gs (c # r) p2) lx2 = Some (Inr (s2, more_tokens [T_Number v] lx2))
            \<and> rest s2 = r' \<and> (good s2 \<or> r' = [])"
          unfolding step_num [OF num] ProcessNum_explicit w_def [symmetric] r'_def [symmetric] Inr
          by (simp add: push_back_more good_def)
      qed
    qed
  next
    case comment
    show ?thesis
    proof (rule step_localI [where cs = "c # r" and r' = "[]" and ts = "[]"
          and p' = "rev r @ CHR ''#'' # p"])
      show "c # r = (c # r) @ []" by simp
      show "c # r \<noteq> []" by simp
      show "\<forall>t\<in>set []. plain t" by simp
      show "ProcessNextToken (gs (c # r @ CHR 0x0A # Z) p) lx
          = Some (Inr (gs ([] @ CHR 0x0A # Z) (rev r @ CHR ''#'' # p), more_tokens [] lx))"
        unfolding comment step_comment takeWhile_to_nl [OF r] dropWhile_to_nl [OF r] by simp
      fix p2 lx2
      show "\<exists>s2. ProcessNextToken (gs (c # r) p2) lx2 = Some (Inr (s2, more_tokens [] lx2))
            \<and> rest s2 = [] \<and> (good s2 \<or> [] = ([] :: string))"
        unfolding comment step_comment takeWhile_all_line [OF r] dropWhile_all_line [OF r] by simp
    qed
  next
    case punct
    show ?thesis
    proof (cases r)
      case Nil
      have nc: "\<not> IsComparisonOperator c (CHR 0x0A)"
        using IsComparisonOperator_cases [of c "CHR 0x0A"] by auto
      show ?thesis
      proof (rule step_localI [where cs = "[c]" and r' = "[]" and ts = "[T_Char c]" and p' = "c # p"])
        show "c # r = [c] @ []" using Nil by simp
        show "[c] \<noteq> []" by simp
        show "\<forall>t\<in>set [T_Char c]. plain t" by (simp add: plain_def)
        show "ProcessNextToken (gs (c # r @ CHR 0x0A # Z) p) lx
            = Some (Inr (gs ([] @ CHR 0x0A # Z) (c # p), more_tokens [T_Char c] lx))"
          unfolding Nil using step_punct_symbol [OF punct nc, of Z p lx] by (simp add: push_back_more)
        fix p2 lx2
        show "\<exists>s2. ProcessNextToken (gs (c # r) p2) lx2 = Some (Inr (s2, more_tokens [T_Char c] lx2))
            \<and> rest s2 = [] \<and> (good s2 \<or> [] = ([] :: string))"
          unfolding Nil step_punct_end [OF punct] by (simp add: push_back_more)
      qed
    next
      case (Cons d r'')
      show ?thesis
      proof (cases "IsComparisonOperator c d")
        case True
        from comparison_uniform [OF True] obtain t where
          t: "plain t" "\<And>lx. ProcessComparisonOperator c d lx = push_back t lx"
          by blast
        show ?thesis
        proof (rule step_localI [where cs = "[c, d]" and r' = r'' and ts = "[t]" and p' = "d # c # p"])
          show "c # r = [c, d] @ r''" using Cons by simp
          show "[c, d] \<noteq> []" by simp
          show "\<forall>t\<in>set [t]. plain t" using t(1) by simp
          show "ProcessNextToken (gs (c # r @ CHR 0x0A # Z) p) lx
              = Some (Inr (gs (r'' @ CHR 0x0A # Z) (d # c # p), more_tokens [t] lx))"
            unfolding Cons using step_punct_comparison [OF punct True, of "r'' @ CHR 0x0A # Z" p lx]
            by (simp add: t(2) push_back_more)
          fix p2 lx2
          show "\<exists>s2. ProcessNextToken (gs (c # r) p2) lx2 = Some (Inr (s2, more_tokens [t] lx2))
              \<and> rest s2 = r'' \<and> (good s2 \<or> r'' = [])"
            unfolding Cons step_punct_comparison [OF punct True]
            by (simp add: t(2) push_back_more good_def)
        qed
      next
        case False
        show ?thesis
        proof (rule step_localI [where cs = "[c]" and r' = r and ts = "[T_Char c]" and p' = "c # p"])
          show "c # r = [c] @ r" by simp
          show "[c] \<noteq> []" by simp
          show "\<forall>t\<in>set [T_Char c]. plain t" by (simp add: plain_def)
          show "ProcessNextToken (gs (c # r @ CHR 0x0A # Z) p) lx
              = Some (Inr (gs (r @ CHR 0x0A # Z) (c # p), more_tokens [T_Char c] lx))"
            unfolding Cons using step_punct_symbol [OF punct False, of "r'' @ CHR 0x0A # Z" p lx]
            by (simp add: push_back_more)
          fix p2 lx2
          show "\<exists>s2. ProcessNextToken (gs (c # r) p2) lx2 = Some (Inr (s2, more_tokens [T_Char c] lx2))
              \<and> rest s2 = r \<and> (good s2 \<or> r = [])"
            unfolding Cons step_punct_symbol [OF punct False]
            by (simp add: push_back_more good_def)
        qed
      qed
    qed
  next
    case other
    show ?thesis
    proof (rule step_localI [where cs = "[c]" and r' = r and ts = "[]" and p' = "c # p"])
      show "c # r = [c] @ r" by simp
      show "[c] \<noteq> []" by simp
      show "\<forall>t\<in>set []. plain t" by simp
      show "ProcessNextToken (gs (c # r @ CHR 0x0A # Z) p) lx
          = Some (Inr (gs (r @ CHR 0x0A # Z) (c # p), more_tokens [] lx))"
        unfolding step_other [OF other] by simp
      fix p2 lx2
      show "\<exists>s2. ProcessNextToken (gs (c # r) p2) lx2 = Some (Inr (s2, more_tokens [] lx2))
          \<and> rest s2 = r \<and> (good s2 \<or> r = [])"
        unfolding step_other [OF other] by (simp add: good_def)
    qed
  qed
qed

text \<open>The main loop on the rest of a line, up to the newline character that ends it.\<close>

lemma token_loop_good:
  "good s \<Longrightarrow> token_loop s lx =
     (case ProcessNextToken s lx of
        None \<Rightarrow> None
      | Some (Inl e) \<Rightarrow> Some (Inl e)
      | Some (Inr (s', lx')) \<Rightarrow> token_loop s' lx')"
  by (subst token_loop.simps) simp

lemma token_loop_not_good: "\<not> good s \<Longrightarrow> token_loop s lx = Some (Inr (s, lx))"
  by (subst token_loop.simps) simp

lemma good_gs_iff [simp]: "good (gs r p)"
  by (simp add: good_def)

lemma token_loop_end: "\<exists>s2. token_loop (gs [] p) lx = Some (Inr (s2, lx))"
  by (simp add: token_loop_good step_eof token_loop_not_good good_def)

lemma line_run:
  "CHR 0x0A \<notin> set u \<Longrightarrow>
   (\<exists>e. token_loop (gs (u @ CHR 0x0A # Z) p) lx = Some (Inl e))
   \<or> (\<exists>ts p'. (\<forall>t\<in>set ts. plain t)
        \<and> token_loop (gs (u @ CHR 0x0A # Z) p) lx
            = token_loop (gs (CHR 0x0A # Z) p') (more_tokens ts lx)
        \<and> (\<forall>p2 lx2. \<exists>s2. token_loop (gs u p2) lx2 = Some (Inr (s2, more_tokens ts lx2))))"
proof (induction "length u" arbitrary: u p lx rule: less_induct)
  case less
  show ?case
  proof (cases u)
    case Nil
    have "\<forall>p2 lx2. \<exists>s2. token_loop (gs [] p2) lx2 = Some (Inr (s2, more_tokens [] lx2))"
      using token_loop_end by simp
    then show ?thesis unfolding Nil
      by (intro disjI2 exI [of _ "[]"] exI [of _ p]) simp
  next
    case (Cons c r)
    with less.prems have c: "c \<noteq> CHR 0x0A" and r: "CHR 0x0A \<notin> set r" by auto
    from step_local [OF c r, of Z p lx]
    show ?thesis
    proof (elim disjE exE conjE)
      fix e assume "ProcessNextToken (gs (c # r @ CHR 0x0A # Z) p) lx = Some (Inl e)"
      then have "token_loop (gs (u @ CHR 0x0A # Z) p) lx = Some (Inl e)"
        unfolding Cons by (simp add: token_loop_good)
      then show ?thesis by blast
    next
      fix cs r' ts p'
      assume a: "c # r = cs @ r'" "cs \<noteq> []" "\<forall>t\<in>set ts. plain t"
        "ProcessNextToken (gs (c # r @ CHR 0x0A # Z) p) lx
           = Some (Inr (gs (r' @ CHR 0x0A # Z) p', more_tokens ts lx))"
        "\<forall>p2 lx2. \<exists>s2. ProcessNextToken (gs (c # r) p2) lx2 = Some (Inr (s2, more_tokens ts lx2))
           \<and> rest s2 = r' \<and> (good s2 \<or> r' = [])"
      have full: "token_loop (gs (u @ CHR 0x0A # Z) p) lx
          = token_loop (gs (r' @ CHR 0x0A # Z) p') (more_tokens ts lx)"
        unfolding Cons using a(4) by (simp add: token_loop_good)
      have first: "\<exists>s1. token_loop (gs u p2) lx2 = token_loop s1 (more_tokens ts lx2)
          \<and> rest s1 = r' \<and> (good s1 \<or> r' = [])" for p2 lx2
      proof -
        from a(5) obtain s1 where
          s1: "ProcessNextToken (gs (c # r) p2) lx2 = Some (Inr (s1, more_tokens ts lx2))"
            "rest s1 = r'" "good s1 \<or> r' = []"
          by blast
        have "token_loop (gs u p2) lx2 = token_loop s1 (more_tokens ts lx2)"
          unfolding Cons using s1(1) by (simp add: token_loop_good)
        with s1 show ?thesis by blast
      qed
      show ?thesis
      proof (cases "r' = []")
        case True
        have "\<exists>s2. token_loop (gs u p2) lx2 = Some (Inr (s2, more_tokens ts lx2))" for p2 lx2
        proof -
          from first [of p2 lx2] obtain s1 where
            s1: "token_loop (gs u p2) lx2 = token_loop s1 (more_tokens ts lx2)" "rest s1 = r'"
            by blast
          show ?thesis
          proof (cases "good s1")
            case g: True
            from good_gs [OF g] s1(2) True have "s1 = gs [] (prev s1)" by simp
            with token_loop_end [of "prev s1" "more_tokens ts lx2"] show ?thesis
              unfolding s1(1) by metis
          next
            case False
            then show ?thesis unfolding s1(1) by (simp add: token_loop_not_good)
          qed
        qed
        with a(3) full True show ?thesis
          by (intro disjI2 exI [of _ ts] exI [of _ p']) simp
      next
        case False
        have "length (c # r) = length cs + length r'" using a(1) by (metis length_append)
        with a(2) Cons have len: "length r' < length u" by (cases cs) simp_all
        have "set r' \<subseteq> set (c # r)" by (simp add: a(1))
        with c r have r'nl: "CHR 0x0A \<notin> set r'" by auto
        from less.hyps [OF len r'nl, of p' "more_tokens ts lx"]
        show ?thesis
        proof (elim disjE exE conjE)
          fix e assume "token_loop (gs (r' @ CHR 0x0A # Z) p') (more_tokens ts lx) = Some (Inl e)"
          then show ?thesis unfolding full by blast
        next
          fix ts2 p''
          assume b: "\<forall>t\<in>set ts2. plain t"
            "token_loop (gs (r' @ CHR 0x0A # Z) p') (more_tokens ts lx)
               = token_loop (gs (CHR 0x0A # Z) p'') (more_tokens ts2 (more_tokens ts lx))"
            "\<forall>p2 lx2. \<exists>s2. token_loop (gs r' p2) lx2 = Some (Inr (s2, more_tokens ts2 lx2))"
          have "\<exists>s2. token_loop (gs u p2) lx2 = Some (Inr (s2, more_tokens (ts @ ts2) lx2))"
            for p2 lx2
          proof -
            from first [of p2 lx2] False obtain s1 where
              s1: "token_loop (gs u p2) lx2 = token_loop s1 (more_tokens ts lx2)" "rest s1 = r'"
                "good s1"
              by blast
            from good_gs [OF s1(3)] s1(2) have "s1 = gs r' (prev s1)" by simp
            with b(3) [rule_format, of "prev s1" "more_tokens ts lx2"] show ?thesis
              unfolding s1(1) by (metis more_tokens_more)
          qed
          with a(3) b(1,2) show ?thesis unfolding full
            by (intro disjI2 exI [of _ "ts @ ts2"] exI [of _ p'']) auto
        qed
      qed
    qed
  qed
qed

text \<open>One terminated line, from \<open>ProcessIndent\<close> at its start to \<open>ProcessIndent\<close> at the start of the next.\<close>

lemma set_indent_tokens:
  "set_indent k \<lparr>tokens = T, prev_indent = lvl, current_pos = cp\<rparr>
     = \<lparr>tokens = T @ indent_tokens lvl k, prev_indent = k, current_pos = cp\<rparr>"
  by (auto simp: set_indent_def indent_tokens_def)

lemma more_tokens_record:
  "more_tokens ts \<lparr>tokens = T, prev_indent = lvl, current_pos = cp\<rparr>
     = \<lparr>tokens = T @ ts, prev_indent = lvl, current_pos = cp\<rparr>"
  by (simp add: more_tokens_def)

lemma indent_tokens_not_Newline: "T_Newline \<notin> set (indent_tokens lvl k)"
  by (simp add: indent_tokens_def)

lemma indent_tokens_same [simp]: "indent_tokens lvl lvl = []"
  by (simp add: indent_tokens_def)

lemma ProcessNextLine_record:
  assumes "T = [] \<or> last T = T_Newline" "T_Newline \<notin> set g"
  shows "ProcessNextLine \<lparr>tokens = T @ g, prev_indent = lvl, current_pos = cp\<rparr>
     = \<lparr>tokens = T @ (if g = [] then [] else g @ [T_Newline]), prev_indent = lvl, current_pos = cp\<rparr>"
proof (cases "g = []")
  case True
  with assms(1) show ?thesis by (auto simp: ProcessNextLine_def)
next
  case False
  with assms(2) have "last g \<noteq> T_Newline" using last_in_set by metis
  with False show ?thesis by (simp add: ProcessNextLine_def push_back_def)
qed

lemma dropWhile_spaces_line:
  "dropWhile (\<lambda>c. c = CHR '' '') (l @ CHR 0x0A # Z) = dropWhile (\<lambda>c. c = CHR '' '') l @ CHR 0x0A # Z"
  by (rule dropWhile_append_nl) simp

lemma takeWhile_spaces_line:
  "takeWhile (\<lambda>c. c = CHR '' '') (l @ CHR 0x0A # Z) = takeWhile (\<lambda>c. c = CHR '' '') l"
  by (rule takeWhile_append_nl) simp

lemma blank_dropWhile: "blank l \<longleftrightarrow> dropWhile (\<lambda>c. c = CHR '' '') l = []"
  by (auto simp: blank_def dropWhile_eq_Nil_conv)

lemma tokens_lexer0: "tokens lexer0 = []"
  by (simp add: lexer0_def)

lemma text_alone:
  assumes u: "u = dropWhile (\<lambda>c. c = CHR '' '') l" "u \<noteq> []" "CHR 0x0A \<notin> set u"
    and run: "token_loop (gs u []) lexer0 = Some (Inr (s2, more_tokens ts lexer0))"
    and ts: "\<forall>t\<in>set ts. plain t"
  shows "line_text_tokens l = ts"
proof -
  obtain c r where cr: "u = c # r" using u(2) by (cases u) auto
  from hd_dropWhile [of "\<lambda>c. c = CHR '' ''" l] u(1,2) have "hd u \<noteq> CHR '' ''" by simp
  with cr have c: "c \<noteq> CHR '' ''" by simp
  have cn: "c \<noteq> CHR 0x0A" using u(3) cr by auto
  have pi: "ProcessIndent (istream_of u) lexer0 = (gs u [], lexer0)"
    unfolding istream_of_def ProcessIndent_explicit cr using c cn
    by (simp add: lexer0_def set_indent_def)
  have tw: "takeWhile (\<lambda>t. t \<noteq> T_Newline \<and> t \<noteq> T_Eof) (ts @ rest) = ts"
    if "rest = [T_Eof] \<or> rest = [T_Newline, T_Eof]" for rest
    using ts that by (induction ts) (auto simp: plain_def)
  have "Lexer_of u = Some (Inr (push_back T_Eof
      (if ts \<noteq> [] then ProcessNextLine (more_tokens ts lexer0) else more_tokens ts lexer0)))"
  proof (cases "ts = []")
    case True
    then show ?thesis
      unfolding Lexer_of_def lexer0_def [symmetric] ProcessAllTokens_def pi
      by (simp add: run tokens_lexer0 Let_def)
  next
    case False
    with ts have "plain (last ts)" using last_in_set by blast
    then have "last ts \<noteq> T_Dedent" "last ts \<noteq> T_Newline" by (auto simp: plain_def)
    with False show ?thesis
      unfolding Lexer_of_def lexer0_def [symmetric] ProcessAllTokens_def pi
      by (simp add: run tokens_lexer0 Let_def)
  qed
  moreover have "tokens (push_back T_Eof
      (if ts \<noteq> [] then ProcessNextLine (more_tokens ts lexer0) else more_tokens ts lexer0))
      = ts @ (if ts \<noteq> [] then [T_Newline, T_Eof] else [T_Eof])"
  proof (cases "ts = []")
    case True
    then show ?thesis by (simp add: push_back_def lexer0_def)
  next
    case False
    with ts have "plain (last ts)" using last_in_set by blast
    then have "last ts \<noteq> T_Newline" by (auto simp: plain_def)
    with False show ?thesis by (simp add: push_back_def lexer0_def ProcessNextLine_def)
  qed
  ultimately show ?thesis
    unfolding line_text_tokens_def u(1) [symmetric] by (simp add: tw)
qed

lemma line_blank:
  assumes "blank l" "T = [] \<or> last T = T_Newline"
  shows "line_start (gs (l @ CHR 0x0A # Z) p) \<lparr>tokens = T, prev_indent = lvl, current_pos = cp\<rparr>
     = line_start (gs Z (CHR 0x0A # rev l @ p)) \<lparr>tokens = T, prev_indent = lvl, current_pos = cp\<rparr>"
proof -
  have d: "dropWhile (\<lambda>c. c = CHR '' '') l = []" using assms(1) by (simp add: blank_dropWhile)
  then have t: "takeWhile (\<lambda>c. c = CHR '' '') l = l"
    using takeWhile_dropWhile_id [of "\<lambda>c. c = CHR '' ''" l] by simp
  have nl: "ProcessNextLine \<lparr>tokens = T, prev_indent = lvl, current_pos = cp\<rparr>
      = \<lparr>tokens = T, prev_indent = lvl, current_pos = cp\<rparr>"
    using assms(2) by (auto simp: ProcessNextLine_def)
  show ?thesis
    unfolding line_start_def [of "gs (l @ CHR 0x0A # Z) p"] ProcessIndent_explicit
      dropWhile_spaces_line takeWhile_spaces_line d t
    by (simp add: token_loop_good step_newline nl line_start_def)
qed

lemma line_not_blank:
  assumes l: "CHR 0x0A \<notin> set l" "\<not> blank l" and T: "T = [] \<or> last T = T_Newline"
  shows "(\<exists>e. line_start (gs (l @ CHR 0x0A # Z) p) \<lparr>tokens = T, prev_indent = lvl, current_pos = cp\<rparr>
            = Some (Inl e))
     \<or> (\<exists>p'. line_start (gs (l @ CHR 0x0A # Z) p) \<lparr>tokens = T, prev_indent = lvl, current_pos = cp\<rparr>
           = line_start (gs Z p')
               \<lparr>tokens = T @ (if line_tokens lvl l = [] then [] else line_tokens lvl l @ [T_Newline]),
                 prev_indent = line_level l, current_pos = cp\<rparr>)"
proof -
  define a where "a = takeWhile (\<lambda>c. c = CHR '' '') l"
  define u where "u = dropWhile (\<lambda>c. c = CHR '' '') l"
  have une: "u \<noteq> []" using l(2) by (simp add: blank_dropWhile u_def)
  have "set u \<subseteq> set l" unfolding u_def by (metis set_dropWhileD subsetI)
  with l(1) have unl: "CHR 0x0A \<notin> set u" by auto
  obtain c r where cr: "u = c # r" using une by (cases u) auto
  have cn: "c \<noteq> CHR 0x0A" using unl cr by auto
  define lx1 where "lx1 = \<lparr>tokens = T @ indent_tokens lvl (line_level l), prev_indent = line_level l,
      current_pos = cp\<rparr>"
  have pi: "ProcessIndent (gs (l @ CHR 0x0A # Z) p) \<lparr>tokens = T, prev_indent = lvl, current_pos = cp\<rparr>
      = (gs (u @ CHR 0x0A # Z) (rev a @ p), lx1)"
    unfolding ProcessIndent_explicit dropWhile_spaces_line takeWhile_spaces_line
      u_def [symmetric] a_def [symmetric]
    using cn by (simp add: cr set_indent_tokens lx1_def line_level_def a_def)
  have start: "line_start (gs (l @ CHR 0x0A # Z) p) \<lparr>tokens = T, prev_indent = lvl, current_pos = cp\<rparr>
      = token_loop (gs (u @ CHR 0x0A # Z) (rev a @ p)) lx1"
    unfolding line_start_def pi by simp
  from line_run [OF unl, of Z "rev a @ p" lx1]
  show ?thesis
  proof (elim disjE exE conjE)
    fix e assume "token_loop (gs (u @ CHR 0x0A # Z) (rev a @ p)) lx1 = Some (Inl e)"
    then show ?thesis unfolding start by blast
  next
    fix ts p'
    assume b: "\<forall>t\<in>set ts. plain t"
      "token_loop (gs (u @ CHR 0x0A # Z) (rev a @ p)) lx1
         = token_loop (gs (CHR 0x0A # Z) p') (more_tokens ts lx1)"
      "\<forall>p2 lx2. \<exists>s2. token_loop (gs u p2) lx2 = Some (Inr (s2, more_tokens ts lx2))"
    from b(3) obtain s2 where "token_loop (gs u []) lexer0 = Some (Inr (s2, more_tokens ts lexer0))"
      by blast
    from text_alone [OF u_def une unl this b(1)] have eqt: "line_text_tokens l = ts" .
    have g: "T_Newline \<notin> set (line_tokens lvl l)"
      unfolding line_tokens_def eqt using b(1) indent_tokens_not_Newline [of lvl "line_level l"]
      by (auto simp: plain_def)
    have m: "more_tokens ts lx1 = \<lparr>tokens = T @ line_tokens lvl l, prev_indent = line_level l,
        current_pos = cp\<rparr>"
      by (simp add: lx1_def more_tokens_record line_tokens_def eqt)
    have "token_loop (gs (CHR 0x0A # Z) p') (more_tokens ts lx1)
        = line_start (gs Z (CHR 0x0A # p'))
            \<lparr>tokens = T @ (if line_tokens lvl l = [] then [] else line_tokens lvl l @ [T_Newline]),
              prev_indent = line_level l, current_pos = cp\<rparr>"
      unfolding m
      by (simp only: token_loop_good [OF good_gs_iff] step_newline option.case sum.case
            ProcessNextLine_record [OF T g] line_start_def)
    then show ?thesis unfolding start b(2) by blast
  qed
qed

lemma lines_tokens_end:
  "T = [] \<or> last T = T_Newline \<Longrightarrow>
   T @ lines_tokens lvl ls = [] \<or> last (T @ lines_tokens lvl ls) = T_Newline"
proof (induction ls arbitrary: T lvl)
  case Nil
  then show ?case by simp
next
  case (Cons l ls)
  have "T @ (if line_tokens lvl l = [] then [] else line_tokens lvl l @ [T_Newline]) = []
      \<or> last (T @ (if line_tokens lvl l = [] then [] else line_tokens lvl l @ [T_Newline])) = T_Newline"
    using Cons.prems by auto
  from Cons.IH [OF this, of "line_level l"] show ?case by simp
qed

lemma lines_run:
  "CHR 0x0A \<notin> set (concat ls) \<Longrightarrow> T = [] \<or> last T = T_Newline \<Longrightarrow>
   (\<exists>e. line_start (gs (concat (map (\<lambda>l. l @ [CHR 0x0A]) ls) @ fin) p)
            \<lparr>tokens = T, prev_indent = lvl, current_pos = cp\<rparr> = Some (Inl e))
   \<or> (\<exists>p' lvl'. line_start (gs (concat (map (\<lambda>l. l @ [CHR 0x0A]) ls) @ fin) p)
            \<lparr>tokens = T, prev_indent = lvl, current_pos = cp\<rparr>
         = line_start (gs fin p')
             \<lparr>tokens = T @ lines_tokens lvl (filter (\<lambda>l. \<not> blank l) ls), prev_indent = lvl',
               current_pos = cp\<rparr>)"
proof (induction ls arbitrary: T lvl p)
  case Nil
  show ?case by (intro disjI2 exI [of _ p] exI [of _ lvl]) simp
next
  case (Cons l ls)
  from Cons.prems have l: "CHR 0x0A \<notin> set l" and ls: "CHR 0x0A \<notin> set (concat ls)" by auto
  have eqt: "concat (map (\<lambda>l. l @ [CHR 0x0A]) (l # ls)) @ fin
      = l @ CHR 0x0A # (concat (map (\<lambda>l. l @ [CHR 0x0A]) ls) @ fin)"
    by simp
  show ?case
  proof (cases "blank l")
    case True
    from Cons.IH [OF ls Cons.prems(2), of "CHR 0x0A # rev l @ p" lvl]
    show ?thesis
      unfolding eqt line_blank [OF True Cons.prems(2)] using True by simp
  next
    case False
    define T' where "T' = T @ (if line_tokens lvl l = [] then [] else line_tokens lvl l @ [T_Newline])"
    have T': "T' = [] \<or> last T' = T_Newline" using Cons.prems(2) by (auto simp: T'_def)
    from line_not_blank [OF l False Cons.prems(2), of "concat (map (\<lambda>l. l @ [CHR 0x0A]) ls) @ fin" p lvl cp]
    show ?thesis
    proof (elim disjE exE)
      fix e
      assume "line_start (gs (l @ CHR 0x0A # concat (map (\<lambda>l. l @ [CHR 0x0A]) ls) @ fin) p)
          \<lparr>tokens = T, prev_indent = lvl, current_pos = cp\<rparr> = Some (Inl e)"
      then show ?thesis unfolding eqt by blast
    next
      fix p'
      assume st: "line_start (gs (l @ CHR 0x0A # concat (map (\<lambda>l. l @ [CHR 0x0A]) ls) @ fin) p)
          \<lparr>tokens = T, prev_indent = lvl, current_pos = cp\<rparr>
        = line_start (gs (concat (map (\<lambda>l. l @ [CHR 0x0A]) ls) @ fin) p')
            \<lparr>tokens = T @ (if line_tokens lvl l = [] then [] else line_tokens lvl l @ [T_Newline]),
              prev_indent = line_level l, current_pos = cp\<rparr>"
      from Cons.IH [OF ls T', of p' "line_level l"]
      show ?thesis
        unfolding eqt st T'_def [symmetric] using False by (simp add: T'_def)
    qed
  qed
qed

text \<open>What follows the last newline character, and the end of the input.\<close>

lemma ProcessAllTokens_line_start:
  "ProcessAllTokens s lx =
     (case line_start s lx of
        None \<Rightarrow> None
      | Some (Inl e) \<Rightarrow> Some (Inl e)
      | Some (Inr (i2, lx2)) \<Rightarrow>
          Some (Inr (i2, push_back T_Eof
            (if tokens lx2 \<noteq> [] \<and> last (tokens lx2) \<noteq> T_Dedent \<and> last (tokens lx2) \<noteq> T_Newline
             then ProcessNextLine lx2 else lx2))))"
  by (auto simp: ProcessAllTokens_def line_start_def Let_def split: prod.splits option.splits sum.splits)

lemma final_run:
  assumes fin: "CHR 0x0A \<notin> set fin"
    and run: "line_start (gs fin p) \<lparr>tokens = T, prev_indent = lvl, current_pos = cp\<rparr>
        = Some (Inr (s2, lx2))"
  shows "\<exists>k pl. tokens lx2 = T @ indent_tokens lvl k @ pl \<and> (\<forall>t\<in>set pl. plain t)"
proof -
  define u where "u = dropWhile (\<lambda>c. c = CHR '' '') fin"
  define k where "k = length (takeWhile (\<lambda>c. c = CHR '' '') fin) div 2"
  define I where "I = (\<lambda>(s :: istream) (lx :: Lexer).
      (\<exists>pl. tokens lx = T @ indent_tokens lvl k @ pl \<and> (\<forall>t\<in>set pl. plain t))
      \<and> CHR 0x0A \<notin> set (rest s))"
  obtain s1 lx1 where pi: "ProcessIndent (gs fin p) \<lparr>tokens = T, prev_indent = lvl, current_pos = cp\<rparr>
      = (s1, lx1)"
    by (cases "ProcessIndent (gs fin p) \<lparr>tokens = T, prev_indent = lvl, current_pos = cp\<rparr>")
  have "set u \<subseteq> set fin" unfolding u_def by (metis set_dropWhileD subsetI)
  with fin have unl: "CHR 0x0A \<notin> set u" by auto
  then have t1: "take 1 u \<noteq> [CHR 0x0A]" by (cases u) auto
  from pi have s1: "s1 = \<lparr>rest = u, prev = rev (takeWhile (\<lambda>c. c = CHR '' '') fin) @ p,
        eofbit = (u = []), failbit = (u = []), badbit = False\<rparr>"
    and lx1: "lx1 = \<lparr>tokens = T @ indent_tokens lvl k, prev_indent = k, current_pos = cp\<rparr>"
    unfolding ProcessIndent_explicit u_def [symmetric] k_def [symmetric]
    using t1 by (simp_all add: set_indent_tokens)
  have ok: "stream_ok s1" by (simp add: s1 stream_ok_def good_def)
  have I1: "I s1 lx1" unfolding I_def using unl by (simp add: s1 lx1)
  have step: "I s' lx'" if "I s lx" "good s" "step_ok s lx s' lx'" for s lx s' lx'
  proof -
    from that(1) obtain pl where f: "tokens lx = T @ indent_tokens lvl k @ pl" "\<forall>t\<in>set pl. plain t"
      and nl: "CHR 0x0A \<notin> set (rest s)"
      unfolding I_def by blast
    from that(3) nl have r: "CHR 0x0A \<notin> set (rest s')"
      and lx: "lx' = lx \<or> (\<exists>t. plain t \<and> lx' = push_back t lx)"
      unfolding step_ok_def consumed_def by auto
    from lx show ?thesis
    proof
      assume "lx' = lx"
      with f r show ?thesis unfolding I_def by blast
    next
      assume "\<exists>t. plain t \<and> lx' = push_back t lx"
      then obtain t where t: "plain t" "lx' = push_back t lx" by blast
      have "tokens lx' = T @ indent_tokens lvl k @ (pl @ [t])"
        using t(2) f(1) by (simp add: push_back_def)
      moreover have "\<forall>x\<in>set (pl @ [t]). plain x"
        using f(2) t(1) by simp
      ultimately show ?thesis unfolding I_def using r by blast
    qed
  qed
  have "\<exists>res. token_loop s1 lx1 = Some res
     \<and> (\<forall>s' lx'. res = Inr (s', lx') \<longrightarrow> I s' lx' \<and> \<not> good s' \<and> stream_ok s')"
    by (rule token_loop_invariant [of I, OF I1 ok]) (rule step)
  moreover have "token_loop s1 lx1 = Some (Inr (s2, lx2))"
    using run unfolding line_start_def pi by simp
  ultimately have "I s2 lx2" by auto
  then show ?thesis unfolding I_def by blast
qed

lemma last_replicate_other: "last (replicate n x) \<noteq> x \<Longrightarrow> n = 0"
  by (induction n) (auto split: if_splits)

lemma last_line_shape:
  assumes "\<forall>t\<in>set pl. plain t"
  shows "T_Newline \<notin> set (indent_tokens lvl k @ pl) \<and> T_Eof \<notin> set (indent_tokens lvl k @ pl)
     \<and> ((indent_tokens lvl k @ pl \<noteq> [] \<and> last (indent_tokens lvl k @ pl) \<noteq> T_Dedent)
          \<longleftrightarrow> (\<exists>t\<in>set (indent_tokens lvl k @ pl). t \<noteq> T_Dedent))"
proof (cases "pl = []")
  case True
  then show ?thesis by (auto simp: indent_tokens_def dest: last_replicate_other)
next
  case False
  with assms have "plain (last pl)" using last_in_set by blast
  then have d: "last pl \<noteq> T_Dedent" by (simp add: plain_def)
  have "last pl \<in> set (indent_tokens lvl k @ pl)" using False by simp
  with d have ex: "\<exists>t\<in>set (indent_tokens lvl k @ pl). t \<noteq> T_Dedent" by blast
  have l: "last (indent_tokens lvl k @ pl) = last pl" using False by simp
  have "T_Newline \<notin> set (indent_tokens lvl k @ pl)" "T_Eof \<notin> set (indent_tokens lvl k @ pl)"
    using assms by (auto simp: indent_tokens_def plain_def)
  with ex l d False show ?thesis by simp
qed

text \<open>
  C9. Tokenization always ends, and for every accepted input no two neighbouring tokens are
  both \<open>Newline\<close>. Let the input be split at its newline characters into the lines these
  terminate and what follows the last of them. A terminated line of spaces only contributes
  no token, however many of them follow each other: the tokens are those of the other
  lines. Each of these contributes the \<open>Indent\<close> or \<open>Dedent\<close> tokens of its change of level
  and the tokens of its text, followed by exactly one \<open>Newline\<close> when it contributed at least
  one token and by nothing when it contributed none. What follows the last newline character
  contributes tokens without \<open>Newline\<close>, followed by exactly one \<open>Newline\<close> when one of them is
  not a \<open>Dedent\<close> and by none when there is none or there are \<open>Dedent\<close> tokens only; after
  that come at most \<open>Dedent\<close> tokens, and \<open>Eof\<close>.
\<close>

theorem newline_discipline:
  "(\<exists>res. Lexer_of text = Some res)
   \<and> (\<forall>lx. Lexer_of text = Some (Inr lx) \<longrightarrow>
        (\<forall>i. Suc i < length (tokens lx) \<longrightarrow>
              tokens lx ! i \<noteq> T_Newline \<or> tokens lx ! Suc i \<noteq> T_Newline)
        \<and> (\<forall>ls fin. text = concat (map (\<lambda>l. l @ [CHR 0x0A]) ls) @ fin
                \<and> CHR 0x0A \<notin> set (concat ls) \<and> CHR 0x0A \<notin> set fin \<longrightarrow>
             (\<exists>g d. tokens lx = lines_tokens 0 (filter (\<lambda>l. \<not> blank l) ls) @ g
                         @ (if \<exists>t\<in>set g. t \<noteq> T_Dedent then [T_Newline] else []) @ d @ [T_Eof]
                  \<and> T_Newline \<notin> set g \<and> T_Eof \<notin> set g \<and> set d \<subseteq> {T_Dedent})))"
proof -
  from Lexer_of_result [of "text"] obtain res where res: "Lexer_of text = Some res"
    and inr: "\<forall>lx. res = Inr lx \<longrightarrow>
        (\<exists>s lx2. lex_inv text s lx2 \<and> rest s = []
           \<and> lx = push_back T_Eof
                   (if tokens lx2 \<noteq> [] \<and> last (tokens lx2) \<noteq> T_Dedent \<and> last (tokens lx2) \<noteq> T_Newline
                    then ProcessNextLine lx2 else lx2))"
    by blast
  have adj: "\<forall>i. Suc i < length (tokens lx) \<longrightarrow>
              tokens lx ! i \<noteq> T_Newline \<or> tokens lx ! Suc i \<noteq> T_Newline"
    if "Lexer_of text = Some (Inr lx)" for lx
  proof -
    from that res inr obtain s lx2 where inv: "lex_inv text s lx2"
      and lx: "lx = push_back T_Eof
                   (if tokens lx2 \<noteq> [] \<and> last (tokens lx2) \<noteq> T_Dedent \<and> last (tokens lx2) \<noteq> T_Newline
                    then ProcessNextLine lx2 else lx2)"
      by auto
    define lx3 where "lx3 = (if tokens lx2 \<noteq> [] \<and> last (tokens lx2) \<noteq> T_Dedent
        \<and> last (tokens lx2) \<noteq> T_Newline then ProcessNextLine lx2 else lx2)"
    from inv have a2: "adj_ok (tokens lx2)" by (simp add: lex_inv_def)
    then have a3: "adj_ok (tokens lx3)" unfolding lx3_def by (simp add: adj_ok_ProcessNextLine)
    have "adj_ok (tokens lx3 @ [T_Eof])" by (rule adj_ok_snoc [OF a3]) simp
    then show ?thesis unfolding lx lx3_def [symmetric] by (simp add: push_back_def adj_ok_def)
  qed
  have lines: "\<exists>g d. tokens lx = lines_tokens 0 (filter (\<lambda>l. \<not> blank l) ls) @ g
                         @ (if \<exists>t\<in>set g. t \<noteq> T_Dedent then [T_Newline] else []) @ d @ [T_Eof]
                  \<and> T_Newline \<notin> set g \<and> T_Eof \<notin> set g \<and> set d \<subseteq> {T_Dedent}"
    if ok: "Lexer_of text = Some (Inr lx)"
      and tx: "text = concat (map (\<lambda>l. l @ [CHR 0x0A]) ls) @ fin"
      and ls: "CHR 0x0A \<notin> set (concat ls)" and fin: "CHR 0x0A \<notin> set fin" for lx ls fin
  proof -
    define T1 where "T1 = lines_tokens 0 (filter (\<lambda>l. \<not> blank l) ls)"
    have T1: "T1 = [] \<or> last T1 = T_Newline"
      using lines_tokens_end [of "[]" 0 "filter (\<lambda>l. \<not> blank l) ls"] by (simp add: T1_def)
    have pat: "Lexer_of text = map_option (map_sum id snd)
        (case line_start (gs text []) \<lparr>tokens = [], prev_indent = 0, current_pos = 0\<rparr> of
           None \<Rightarrow> None
         | Some (Inl e) \<Rightarrow> Some (Inl e)
         | Some (Inr (i2, lx2)) \<Rightarrow>
             Some (Inr (i2, push_back T_Eof
               (if tokens lx2 \<noteq> [] \<and> last (tokens lx2) \<noteq> T_Dedent \<and> last (tokens lx2) \<noteq> T_Newline
                then ProcessNextLine lx2 else lx2))))"
      by (simp add: Lexer_of_def ProcessAllTokens_line_start istream_of_def)
    from lines_run [OF ls, of "[]" fin "[]" 0 0]
    have "(\<exists>e. line_start (gs text []) \<lparr>tokens = [], prev_indent = 0, current_pos = 0\<rparr> = Some (Inl e))
      \<or> (\<exists>p' lvl'. line_start (gs text []) \<lparr>tokens = [], prev_indent = 0, current_pos = 0\<rparr>
           = line_start (gs fin p') \<lparr>tokens = T1, prev_indent = lvl', current_pos = 0\<rparr>)"
      unfolding tx T1_def by simp
    then obtain p' lvl' where st: "line_start (gs text []) \<lparr>tokens = [], prev_indent = 0, current_pos = 0\<rparr>
           = line_start (gs fin p') \<lparr>tokens = T1, prev_indent = lvl', current_pos = 0\<rparr>"
      using ok unfolding pat by auto
    from ok obtain s2 lx2 where run: "line_start (gs fin p') \<lparr>tokens = T1, prev_indent = lvl', current_pos = 0\<rparr>
        = Some (Inr (s2, lx2))"
      and lx: "lx = push_back T_Eof
               (if tokens lx2 \<noteq> [] \<and> last (tokens lx2) \<noteq> T_Dedent \<and> last (tokens lx2) \<noteq> T_Newline
                then ProcessNextLine lx2 else lx2)"
      unfolding pat st by (auto split: option.splits sum.splits)
    from final_run [OF fin run] obtain k pl where f0: "tokens lx2 = T1 @ indent_tokens lvl' k @ pl"
      and pl: "\<forall>t\<in>set pl. plain t"
      by blast
    define f0 where "f0 = indent_tokens lvl' k @ pl"
    from last_line_shape [OF pl, of lvl' k]
    have nn: "T_Newline \<notin> set f0" and ne: "T_Eof \<notin> set f0"
      and sh: "(f0 \<noteq> [] \<and> last f0 \<noteq> T_Dedent) \<longleftrightarrow> (\<exists>t\<in>set f0. t \<noteq> T_Dedent)"
      unfolding f0_def by blast+
    have "tokens lx = T1 @ f0 @ (if \<exists>t\<in>set f0. t \<noteq> T_Dedent then [T_Newline] else []) @ [] @ [T_Eof]"
    proof (cases "f0 = []")
      case True
      with T1 f0 show ?thesis unfolding lx f0_def by (auto simp: push_back_def)
    next
      case False
      with nn have "last f0 \<noteq> T_Newline" using last_in_set by metis
      with False f0 show ?thesis unfolding lx sh [symmetric] unfolding f0_def
        by (simp add: push_back_def ProcessNextLine_def)
    qed
    moreover have "set ([] :: Token list) \<subseteq> {T_Dedent}" by simp
    ultimately show ?thesis using nn ne unfolding T1_def by blast
  qed
  from res adj lines show ?thesis by blast
qed

text \<open>
  The claim as worded fails on a last line that only closes the indentation: after the line
  \<open>x\<close> at level one, the line \<open>#c\<close> at level zero produces a \<open>Dedent\<close> (the input without
  it has none) and no \<open>Newline\<close> follows it, so that two source lines produced a token and
  one \<open>Newline\<close> was emitted.
\<close>

theorem comment_line_closes_indent_without_Newline:
  "Lexer_of (''  x'' @ [CHR 0x0A] @ ''#c'') =
     Some (Inr \<lparr>tokens = [T_Indent, T_Id ''x'', T_Newline, T_Dedent, T_Eof],
                prev_indent = 0, current_pos = 0\<rparr>)
   \<and> Lexer_of ''  x'' =
     Some (Inr \<lparr>tokens = [T_Indent, T_Id ''x'', T_Newline, T_Eof],
                prev_indent = 1, current_pos = 0\<rparr>)
   \<and> count_list [T_Indent, T_Id ''x'', T_Newline, T_Dedent, T_Eof] T_Newline = 1"
proof -
  have "Lexer_of (''  x'' @ [CHR 0x0A] @ ''#c'') =
     Some (Inr \<lparr>tokens = [T_Indent, T_Id ''x'', T_Newline, T_Dedent, T_Eof],
                prev_indent = 0, current_pos = 0\<rparr>)"
    by code_simp
  moreover have "Lexer_of ''  x'' =
     Some (Inr \<lparr>tokens = [T_Indent, T_Id ''x'', T_Newline, T_Eof],
                prev_indent = 1, current_pos = 0\<rparr>)"
    by code_simp
  ultimately show ?thesis by simp
qed

theorem newline_discipline_witness:
  "Lexer_of (''x'' @ [CHR 0x0A] @ ''  '' @ [CHR 0x0A, CHR 0x0A] @ ''  y'' @ [CHR 0x0A]) =
     Some (Inr \<lparr>tokens = [T_Id ''x'', T_Newline, T_Indent, T_Id ''y'', T_Newline, T_Dedent, T_Eof],
                prev_indent = 0, current_pos = 0\<rparr>)
   \<and> lines_tokens 0 (filter (\<lambda>l. \<not> blank l) [''x'', ''  '', [], ''  y''])
       = [T_Id ''x'', T_Newline, T_Indent, T_Id ''y'', T_Newline]
   \<and> (\<exists>g d. [T_Id ''x'', T_Newline, T_Indent, T_Id ''y'', T_Newline, T_Dedent, T_Eof]
            = [T_Id ''x'', T_Newline, T_Indent, T_Id ''y'', T_Newline] @ g
                @ (if \<exists>t\<in>set g. t \<noteq> T_Dedent then [T_Newline] else []) @ d @ [T_Eof]
          \<and> T_Newline \<notin> set g \<and> T_Eof \<notin> set g \<and> set d \<subseteq> {T_Dedent})
   \<and> [T_Id ''x'', T_Newline, T_Indent, T_Id ''y'', T_Newline, T_Dedent, T_Eof] ! 2 \<noteq> T_Newline"
proof -
  define W where "W = ''x'' @ [CHR 0x0A] @ ''  '' @ [CHR 0x0A, CHR 0x0A] @ ''  y'' @ [CHR 0x0A]"
  define TK where "TK = [T_Id ''x'', T_Newline, T_Indent, T_Id ''y'', T_Newline, T_Dedent, T_Eof]"
  have ev: "Lexer_of W = Some (Inr \<lparr>tokens = TK, prev_indent = 0, current_pos = 0\<rparr>)"
    unfolding W_def TK_def by code_simp
  have lt: "lines_tokens 0 (filter (\<lambda>l. \<not> blank l) [''x'', ''  '', [], ''  y''])
       = [T_Id ''x'', T_Newline, T_Indent, T_Id ''y'', T_Newline]"
    by code_simp
  have split: "W = concat (map (\<lambda>l. l @ [CHR 0x0A]) [''x'', ''  '', [], ''  y'']) @ []
      \<and> CHR 0x0A \<notin> set (concat [''x'', ''  '', [], ''  y'']) \<and> CHR 0x0A \<notin> set ([] :: string)"
    unfolding W_def by simp
  note main = newline_discipline [of W]
  from main ev have "\<forall>i. Suc i < length TK \<longrightarrow> TK ! i \<noteq> T_Newline \<or> TK ! Suc i \<noteq> T_Newline"
    by auto
  from this [rule_format, of 1] have two: "TK ! 2 \<noteq> T_Newline"
    by (simp add: TK_def)
  from main ev have "\<forall>ls fin. W = concat (map (\<lambda>l. l @ [CHR 0x0A]) ls) @ fin
                \<and> CHR 0x0A \<notin> set (concat ls) \<and> CHR 0x0A \<notin> set fin \<longrightarrow>
             (\<exists>g d. TK = lines_tokens 0 (filter (\<lambda>l. \<not> blank l) ls) @ g
                         @ (if \<exists>t\<in>set g. t \<noteq> T_Dedent then [T_Newline] else []) @ d @ [T_Eof]
                  \<and> T_Newline \<notin> set g \<and> T_Eof \<notin> set g \<and> set d \<subseteq> {T_Dedent})"
    by auto
  from this [rule_format, OF split]
  have "\<exists>g d. TK = [T_Id ''x'', T_Newline, T_Indent, T_Id ''y'', T_Newline] @ g
                @ (if \<exists>t\<in>set g. t \<noteq> T_Dedent then [T_Newline] else []) @ d @ [T_Eof]
          \<and> T_Newline \<notin> set g \<and> T_Eof \<notin> set g \<and> set d \<subseteq> {T_Dedent}"
    unfolding lt .
  with ev lt two show ?thesis unfolding W_def TK_def by blast
qed

end
